theory Spec2Isabelle
  imports Main "HOL-Library.Extended_Nat"
begin

section \<open>Strings and the engine's case conversions\<close>

text \<open>
  A string of the program is a sequence of code units. The strings that the program is
  given (\<open>rawWord\<close>, and with it every candidate and every word put to the oracle) are
  modelled with one \<^typ>\<open>char\<close> per code unit, which covers the code units
  U+0000 .. U+00FF (Basic Latin and Latin-1 Supplement). \<open>String.prototype.toLowerCase\<close>
  and \<open>String.prototype.toUpperCase\<close> are built into the engine; on this range they
  follow the Unicode case mappings, which are context free there:
  \<^item> lower-casing adds \<open>0x20\<close> to \<open>A-Z\<close>, \<open>U+00C0 .. U+00D6\<close> and \<open>U+00D8 .. U+00DE\<close>,
    and stays within the range;
  \<^item> upper-casing subtracts \<open>0x20\<close> from \<open>a-z\<close>, \<open>U+00E0 .. U+00F6\<close> and
    \<open>U+00F8 .. U+00FE\<close>, turns \<open>U+00DF\<close> (sharp s) into the two code units \<open>SS\<close>,
    \<open>U+00B5\<close> (micro sign) into \<open>U+039C\<close> and \<open>U+00FF\<close> into \<open>U+0178\<close>.

  Upper-casing leaves the range, so an upper-cased string, and with it every result of
  \<open>preserveCase\<close> and \<open>getCorrection\<close>, is a list of code units as natural numbers.
  \<open>codeUnits\<close> reads a string as such a list, and \<open>fromCodeUnits\<close> goes back where
  every code unit is below \<open>0x100\<close>.
\<close>

definition codeUnits :: "string \<Rightarrow> nat list" where
  "codeUnits s = map of_char s"

definition fromCodeUnits :: "nat list \<Rightarrow> string" where
  "fromCodeUnits us = map char_of us"

definition toLowerCaseUnit :: "char \<Rightarrow> char" where
  "toLowerCaseUnit c =
     (let n = (of_char c :: nat)
      in if (65 \<le> n \<and> n \<le> 90) \<or> (192 \<le> n \<and> n \<le> 214) \<or> (216 \<le> n \<and> n \<le> 222)
         then char_of (n + 32) else c)"

definition toUpperCaseUnit :: "char \<Rightarrow> nat list" where
  "toUpperCaseUnit c =
     (let n = (of_char c :: nat)
      in if n = 223 then [83, 83]
         else if n = 181 then [924]
         else if n = 255 then [376]
         else if (97 \<le> n \<and> n \<le> 122) \<or> (224 \<le> n \<and> n \<le> 246) \<or> (248 \<le> n \<and> n \<le> 254)
         then [n - 32] else [n])"

definition toLowerCase :: "string \<Rightarrow> string" where
  "toLowerCase s = map toLowerCaseUnit s"

definition toUpperCase :: "string \<Rightarrow> nat list" where
  "toUpperCase s = concat (map toUpperCaseUnit s)"

section \<open>Sets with insertion order\<close>

text \<open>
  A \<open>Set\<close> of the engine keeps its members in insertion order, and \<open>add\<close> of a member
  already present changes nothing. \<open>for ... of\<close> and \<open>forEach\<close> visit the members in
  that order, so the model is a list without duplicates.
\<close>

definition setAdd :: "'a list \<Rightarrow> 'a \<Rightarrow> 'a list" where
  "setAdd s x = (if x \<in> set s then s else s @ [x])"

section \<open>levenshtein\<close>

text \<open>
  \<open>dp\<close> is an array of \<open>a.length + 1\<close> rows, each a fresh array of \<open>b.length + 1\<close>
  zeros. Every write \<open>dp[i][j] = v\<close> of the source is within these bounds.
  \<open>levenshteinTable\<close> is \<open>dp\<close> after the three loops, and \<open>levenshtein\<close> returns
  \<open>dp[a.length][b.length]\<close>. \<open>Math.min\<close> of three numbers is \<open>min\<close> twice.
\<close>

definition setCell :: "nat list list \<Rightarrow> nat \<Rightarrow> nat \<Rightarrow> nat \<Rightarrow> nat list list" where
  "setCell dp i j v = dp[i := (dp ! i)[j := v]]"

definition levenshteinTable :: "string \<Rightarrow> string \<Rightarrow> nat list list" where
  "levenshteinTable a b =
     (let dp0 = replicate (length a + 1) (replicate (length b + 1) (0::nat));
          dp1 = fold (\<lambda>i dp. setCell dp i 0 i) [0..<length a + 1] dp0;
          dp2 = fold (\<lambda>j dp. setCell dp 0 j j) [0..<length b + 1] dp1;
          dp3 = fold (\<lambda>i dp.
                  fold (\<lambda>j dp.
                    let cost = (if a ! (i - 1) = b ! (j - 1) then 0 else 1)
                    in setCell dp i j
                         (min (dp ! (i - 1) ! j + 1)
                           (min (dp ! i ! (j - 1) + 1)
                             (dp ! (i - 1) ! (j - 1) + cost))))
                    [1..<length b + 1] dp)
                  [1..<length a + 1] dp2
      in dp3)"

definition levenshtein :: "string \<Rightarrow> string \<Rightarrow> nat" where
  "levenshtein a b = levenshteinTable a b ! length a ! length b"

section \<open>repeatVariants\<close>

record run =
  ch :: char
  len :: nat

text \<open>The inner \<open>while\<close> loop: \<open>j\<close> advances while \<open>word[j] === word[i]\<close>.\<close>

function scanRun :: "string \<Rightarrow> nat \<Rightarrow> nat \<Rightarrow> nat" where
  "scanRun word i j =
     (if j < length word \<and> word ! j = word ! i then scanRun word i (j + 1) else j)"
  by pat_completeness auto

termination
  by (relation "measure (\<lambda>(word, i, j). length word - j)") auto

declare scanRun.simps [simp del]

text \<open>The outer \<open>while\<close> loop, pushing one run per round.\<close>

function collectRuns :: "string \<Rightarrow> nat \<Rightarrow> run list \<Rightarrow> run list" where
  "collectRuns word i runs =
     (if i < length word
      then collectRuns word (scanRun word i (i + 1))
             (runs @ [\<lparr>ch = word ! i, len = scanRun word i (i + 1) - i\<rparr>])
      else runs)"
  by pat_completeness auto

termination
proof (relation "measure (\<lambda>(word, i, runs). length word - i)")
  show "wf (measure (\<lambda>(word, i, runs). length word - i))" by simp
next
  fix word :: string and i :: nat and runs :: "run list"
  assume "i < length word"
  moreover have "j \<le> scanRun w k j" for w k j
  proof (induction w k j rule: scanRun.induct)
    case (1 w k j)
    show ?case
    proof (cases "j < length w \<and> w ! j = w ! k")
      case True
      with "1" have "j + 1 \<le> scanRun w k (j + 1)" by blast
      moreover from True have "scanRun w k j = scanRun w k (j + 1)"
        by (subst scanRun.simps) simp
      ultimately show ?thesis by simp
    next
      case False
      then have "scanRun w k j = j" by (subst scanRun.simps) auto
      then show ?thesis by simp
    qed
  qed
  then have "i + 1 \<le> scanRun word i (i + 1)" .
  ultimately show "((word, scanRun word i (i + 1),
      runs @ [\<lparr>ch = word ! i, len = scanRun word i (i + 1) - i\<rparr>]), (word, i, runs))
    \<in> measure (\<lambda>(word, i, runs). length word - i)"
    by simp
qed

declare collectRuns.simps [simp del]

text \<open>
  \<open>backtrack(idx, acc)\<close> adds to the set \<open>variants\<close>; the model passes the set through.
  \<open>idx\<close> runs from \<open>0\<close> to \<open>runs.length\<close>, and the first argument here is the part of
  \<open>runs\<close> from \<open>idx\<close> on.
\<close>

fun backtrack :: "run list \<Rightarrow> string \<Rightarrow> string list \<Rightarrow> string list" where
  "backtrack [] acc variants = setAdd variants acc"
| "backtrack (r # rs) acc variants =
     (if len r = 1 then backtrack rs (acc @ [ch r]) variants
      else backtrack rs (acc @ [ch r, ch r]) (backtrack rs (acc @ [ch r]) variants))"

definition repeatVariants :: "string \<Rightarrow> string list" where
  "repeatVariants word = backtrack (collectRuns word 0 []) [] []"

section \<open>preserveCase\<close>

text \<open>
  \<open>corrected\<close> is \<open>best\<close> of \<open>getCorrection\<close>: \<open>null\<close> (\<open>None\<close>) or a string. Both \<open>null\<close>
  and the empty string are falsy.
\<close>

definition preserveCase :: "string \<Rightarrow> string option \<Rightarrow> nat list" where
  "preserveCase original corrected =
     (case corrected of
        None \<Rightarrow> codeUnits original
      | Some [] \<Rightarrow> codeUnits original
      | Some (c # cs) \<Rightarrow>
          if toUpperCase original = codeUnits original then toUpperCase (c # cs)
          else (case original of
                  [] \<Rightarrow> codeUnits (c # cs)
                | x # xs \<Rightarrow> if toUpperCase [x] = codeUnits [x]
                            then toUpperCase [c] @ codeUnits cs
                            else codeUnits (c # cs)))"

section \<open>getCorrection\<close>

text \<open>
  The module's state: the cached word set \<open>__wordsDataset\<close> (\<open>null\<close> until loaded),
  whether \<open>fetch\<close> is a function of the environment, and how many times
  \<open>loadWordsDataset()\<close> has been started. The load is asynchronous: starting it calls
  \<open>fetch\<close> and returns, and the cache is unchanged while \<open>getCorrection\<close> runs.
\<close>

record moduleState =
  wordsDataset :: "string set option"
  fetchIsFunction :: bool
  loadsStarted :: nat

definition isWord :: "(string \<Rightarrow> bool) option \<Rightarrow> moduleState \<Rightarrow> string \<Rightarrow> bool" where
  "isWord hasWord st w =
     (case hasWord of
        Some f \<Rightarrow> f w
      | None \<Rightarrow> (case wordsDataset st of Some d \<Rightarrow> w \<in> d | None \<Rightarrow> False))"

definition alphabet :: string where
  "alphabet = ''abcdefghijklmnopqrstuvwxyz''"

text \<open>Lines 41 to 64: the four passes that fill the set \<open>candidates\<close>.\<close>

definition addRepeats :: "string \<Rightarrow> string list \<Rightarrow> string list" where
  "addRepeats lower candidates = fold (\<lambda>v cs. setAdd cs v) (repeatVariants lower) candidates"

definition addDeletions :: "string \<Rightarrow> string list \<Rightarrow> string list" where
  "addDeletions lower candidates =
     fold (\<lambda>i cs. setAdd cs (take i lower @ drop (i + 1) lower)) [0..<length lower] candidates"

definition addInsertions :: "string \<Rightarrow> string list \<Rightarrow> string list" where
  "addInsertions lower candidates =
     fold (\<lambda>i cs. fold (\<lambda>c cs. setAdd cs (take i lower @ [c] @ drop i lower)) alphabet cs)
       [0..<length lower + 1] candidates"

definition addSubstitutions :: "string \<Rightarrow> string list \<Rightarrow> string list" where
  "addSubstitutions lower candidates =
     fold (\<lambda>i cs. fold (\<lambda>c cs. if c \<noteq> lower ! i
                                then setAdd cs (take i lower @ [c] @ drop (i + 1) lower)
                                else cs) alphabet cs)
       [0..<length lower] candidates"

definition generateCandidates :: "string \<Rightarrow> string list" where
  "generateCandidates lower =
     addSubstitutions lower (addInsertions lower (addDeletions lower (addRepeats lower [])))"

text \<open>Lines 67 to 71: the hits, in the order the set is visited.\<close>

definition collectHits :: "(string \<Rightarrow> bool) \<Rightarrow> string list \<Rightarrow> string list" where
  "collectHits known candidates =
     fold (\<lambda>c hits. if c = [] then hits else if known c then hits @ [c] else hits) candidates []"

text \<open>Lines 75 to 84: \<open>bestScore\<close> starts at \<open>Infinity\<close>, \<open>best\<close> at \<open>null\<close>.\<close>

definition pickBest :: "string \<Rightarrow> string list \<Rightarrow> string option \<times> enat" where
  "pickBest lower hits =
     fold (\<lambda>h (best, bestScore).
             let score = enat (levenshtein lower h)
             in if score < bestScore then (Some h, score) else (best, bestScore))
       hits (None, \<infinity>)"

text \<open>
  \<open>getCorrectionWith generate\<close> is \<open>getCorrection\<close> with lines 41 to 64 replaced by
  \<open>generate lower\<close>; \<open>getCorrection\<close> itself takes \<open>generateCandidates\<close> there.
  \<open>hasWord\<close> is \<open>None\<close> when the caller passes no predicate. The result is given in
  code units: \<open>codeUnits rawWord\<close> is \<open>rawWord\<close> returned as it is.
\<close>

definition getCorrectionWith ::
  "(string \<Rightarrow> string list) \<Rightarrow> string \<Rightarrow> (string \<Rightarrow> bool) option \<Rightarrow> moduleState
     \<Rightarrow> nat list \<times> moduleState" where
  "getCorrectionWith generate rawWord hasWord st =
     (if rawWord = [] then (codeUnits rawWord, st)
      else
        let lower = toLowerCase rawWord;
            st' = (if hasWord = None \<and> wordsDataset st = None \<and> fetchIsFunction st
                   then st\<lparr>loadsStarted := loadsStarted st + 1\<rparr> else st)
        in if isWord hasWord st' lower then (codeUnits rawWord, st')
           else
             let candidates = generate lower;
                 hits = collectHits (isWord hasWord st') candidates
             in if hits \<noteq> [] then (preserveCase rawWord (fst (pickBest lower hits)), st')
                else (codeUnits rawWord, st'))"

definition getCorrection ::
  "string \<Rightarrow> (string \<Rightarrow> bool) option \<Rightarrow> moduleState \<Rightarrow> nat list \<times> moduleState" where
  "getCorrection = getCorrectionWith generateCandidates"

section \<open>Notions of the specification\<close>

subsection \<open>Edit distance\<close>

text \<open>The recurrence of the edit distance, on lists read from the front.\<close>

fun editDistance :: "'a list \<Rightarrow> 'a list \<Rightarrow> nat" where
  "editDistance [] ys = length ys"
| "editDistance (x # xs) [] = Suc (length xs)"
| "editDistance (x # xs) (y # ys) =
     min (editDistance xs (y # ys) + 1)
       (min (editDistance (x # xs) ys + 1)
         (editDistance xs ys + (if x = y then 0 else 1)))"

text \<open>One single-character edit, at any position.\<close>

inductive edit1 :: "'a list \<Rightarrow> 'a list \<Rightarrow> bool" where
  insertion: "edit1 (xs @ ys) (xs @ [c] @ ys)"
| deletion: "edit1 (xs @ [c] @ ys) (xs @ ys)"
| substitution: "c \<noteq> d \<Longrightarrow> edit1 (xs @ [c] @ ys) (xs @ [d] @ ys)"

subsection \<open>Maximal runs and their variants\<close>

text \<open>
  \<open>expandRuns\<close> writes a list of runs out as a string. \<open>runs\<close> is the encoding of
  \<open>word\<close> in maximal runs when it writes out to \<open>word\<close>, no run is empty, and
  neighbouring runs have different characters.
\<close>

definition expandRuns :: "run list \<Rightarrow> string" where
  "expandRuns runs = concat (map (\<lambda>r. replicate (len r) (ch r)) runs)"

definition maximalRuns :: "string \<Rightarrow> run list \<Rightarrow> bool" where
  "maximalRuns word runs \<longleftrightarrow>
     expandRuns runs = word \<and> (\<forall>r\<in>set runs. 1 \<le> len r) \<and> distinct_adj (map ch runs)"

text \<open>
  A run longer than one character may be written with one or with two characters, a run
  of one character stays; a variant takes one allowed length for each run.
\<close>

definition allowedLengths :: "run \<Rightarrow> nat set" where
  "allowedLengths r = (if 1 < len r then {1, 2} else {1})"

definition specVariants :: "run list \<Rightarrow> string set" where
  "specVariants runs =
     {concat (map (\<lambda>(r, n). replicate n (ch r)) (zip runs ns)) | ns.
        list_all2 (\<lambda>r n. n \<in> allowedLengths r) runs ns}"

subsection \<open>Example oracles and an initial state\<close>

text \<open>
  \<open>knowsOnly word\<close> is the oracle that recognises \<open>word\<close> and nothing else;
  \<open>knowsNothing\<close> answers false for every string; \<open>tieOracle\<close> recognises the three
  words \<open>a\<close>, \<open>aa\<close> and \<open>aaab\<close>. In \<open>initialState\<close> nothing is loaded yet.
\<close>

definition initialState :: moduleState where
  "initialState = \<lparr>wordsDataset = None, fetchIsFunction = True, loadsStarted = 0\<rparr>"

definition knowsOnly :: "string \<Rightarrow> string \<Rightarrow> bool" where
  "knowsOnly word w = (w = word)"

definition knowsNothing :: "string \<Rightarrow> bool" where
  "knowsNothing w = False"

definition tieOracle :: "string \<Rightarrow> bool" where
  "tieOracle w \<longleftrightarrow> w = ''a'' \<or> w = ''aa'' \<or> w = ''aaab''"

subsection \<open>Words of ASCII characters, single-edit candidates, an oracle with a sharp s\<close>

text \<open>
  \<open>isAscii s\<close>: every code unit of \<open>s\<close> is below \<open>0x80\<close>. \<open>singleEditCandidates\<close> are
  the candidates of the deletion, insertion and substitution passes alone, in the order
  the source runs them. \<open>sharpSOracle\<close> recognises the two words \<open>U+00DF a\<close> and \<open>sa\<close>.
\<close>

definition isAscii :: "string \<Rightarrow> bool" where
  "isAscii s \<longleftrightarrow> (\<forall>c\<in>set s. (of_char c :: nat) < 128)"

definition singleEditCandidates :: "string \<Rightarrow> string list" where
  "singleEditCandidates lower = addSubstitutions lower (addInsertions lower (addDeletions lower []))"

definition sharpSOracle :: "string \<Rightarrow> bool" where
  "sharpSOracle w \<longleftrightarrow> w = [CHR 0xDF, CHR ''a''] \<or> w = ''sa''"

section \<open>Auxiliary definitions of the proofs\<close>

text \<open>
  \<open>pickStep\<close> is one round of the loop of \<open>pickBest\<close>, and \<open>innerStep\<close> one round of
  the inner loop of \<open>levenshtein\<close>. \<open>wfTable\<close> gives the shape of the table, \<open>filled\<close>
  says which cells already hold \<open>prefixDistance\<close>, the recurrence on two prefixes.
  \<open>plainUnit\<close> holds of the ASCII code units other than \<open>A-Z\<close>.
\<close>

definition pickStep :: "string \<Rightarrow> string \<Rightarrow> string option \<times> enat \<Rightarrow> string option \<times> enat" where
  "pickStep lower h acc =
     (let score = enat (levenshtein lower h)
      in if score < snd acc then (Some h, score) else acc)"

definition wfTable :: "nat \<Rightarrow> nat \<Rightarrow> nat list list \<Rightarrow> bool" where
  "wfTable m n dp \<longleftrightarrow> length dp = Suc m \<and> (\<forall>i\<le>m. length (dp ! i) = Suc n)"

definition prefixDistance :: "string \<Rightarrow> string \<Rightarrow> nat \<Rightarrow> nat \<Rightarrow> nat" where
  "prefixDistance a b i j = editDistance (rev (take i a)) (rev (take j b))"

definition filled :: "string \<Rightarrow> string \<Rightarrow> (nat \<Rightarrow> nat \<Rightarrow> bool) \<Rightarrow> nat list list \<Rightarrow> bool" where
  "filled a b done dp \<longleftrightarrow>
     wfTable (length a) (length b) dp \<and>
     (\<forall>i j. i \<le> length a \<longrightarrow> j \<le> length b \<longrightarrow> done i j \<longrightarrow> dp ! i ! j = prefixDistance a b i j)"

definition innerStep :: "string \<Rightarrow> string \<Rightarrow> nat \<Rightarrow> nat \<Rightarrow> nat list list \<Rightarrow> nat list list" where
  "innerStep a b i j dp =
     (let cost = (if a ! (i - 1) = b ! (j - 1) then 0 else 1)
      in setCell dp i j
           (min (dp ! (i - 1) ! j + 1)
             (min (dp ! i ! (j - 1) + 1)
               (dp ! (i - 1) ! (j - 1) + cost))))"

definition plainUnit :: "char \<Rightarrow> bool" where
  "plainUnit c \<longleftrightarrow> (of_char c :: nat) < 128 \<and> \<not> (65 \<le> (of_char c :: nat) \<and> (of_char c :: nat) \<le> 90)"

section \<open>Auxiliary facts\<close>

lemma scanRun_ge: "j \<le> scanRun word i j"
proof (induction word i j rule: scanRun.induct)
  case (1 word i j)
  show ?case
  proof (cases "j < length word \<and> word ! j = word ! i")
    case True
    with "1" have "j + 1 \<le> scanRun word i (j + 1)" by blast
    moreover from True have "scanRun word i j = scanRun word i (j + 1)"
      by (subst scanRun.simps) simp
    ultimately show ?thesis by simp
  next
    case False
    then have "scanRun word i j = j" by (subst scanRun.simps) auto
    then show ?thesis by simp
  qed
qed

lemma isWord_Some [simp]: "isWord (Some f) st w = f w"
  by (simp add: isWord_def)

lemma isWord_Some_fun [simp]: "isWord (Some f) st = f"
  by (simp add: fun_eq_iff isWord_def)

lemma isWord_loadsStarted [simp]: "isWord hasWord (st\<lparr>loadsStarted := n\<rparr>) = isWord hasWord st"
  by (cases hasWord) (simp_all add: isWord_def fun_eq_iff)

lemma collectHits_fold:
  "fold (\<lambda>c hits. if c = [] then hits else if known c then hits @ [c] else hits) cs acc
     = acc @ filter (\<lambda>c. c \<noteq> [] \<and> known c) cs"
  by (induction cs arbitrary: acc) auto

lemma collectHits_filter: "collectHits known cs = filter (\<lambda>c. c \<noteq> [] \<and> known c) cs"
  by (simp add: collectHits_def collectHits_fold)

lemma set_collectHits: "set (collectHits known cs) = {c \<in> set cs. c \<noteq> [] \<and> known c}"
  by (auto simp add: collectHits_filter)

lemma getCorrection_Some:
  "getCorrection rawWord (Some oracle) st =
     (if rawWord = [] then (codeUnits rawWord, st)
      else if oracle (toLowerCase rawWord) then (codeUnits rawWord, st)
      else if collectHits oracle (generateCandidates (toLowerCase rawWord)) \<noteq> []
      then (preserveCase rawWord
              (fst (pickBest (toLowerCase rawWord)
                 (collectHits oracle (generateCandidates (toLowerCase rawWord))))), st)
      else (codeUnits rawWord, st))"
  by (simp add: getCorrection_def getCorrectionWith_def Let_def cong: if_cong)

lemma pickBest_pickStep: "pickBest lower hits = fold (pickStep lower) hits (None, \<infinity>)"
proof -
  have "(\<lambda>h (best, bestScore).
             let score = enat (levenshtein lower h)
             in if score < bestScore then (Some h, score) else (best, bestScore)) = pickStep lower"
    by (auto simp add: pickStep_def fun_eq_iff Let_def)
  then show ?thesis by (simp add: pickBest_def)
qed

lemma pickBest_snoc: "pickBest lower (hs @ [h]) = pickStep lower h (pickBest lower hs)"
  by (simp add: pickBest_pickStep)

lemma pickBest_Nil: "pickBest lower [] = (None, \<infinity>)"
  by (simp add: pickBest_pickStep)

lemma pickBest_first_min:
  "hs \<noteq> [] \<Longrightarrow>
   \<exists>k<length hs. pickBest lower hs = (Some (hs ! k), enat (levenshtein lower (hs ! k)))
      \<and> (\<forall>h\<in>set hs. levenshtein lower (hs ! k) \<le> levenshtein lower h)
      \<and> (\<forall>m<k. levenshtein lower (hs ! k) < levenshtein lower (hs ! m))"
proof (induction hs rule: rev_induct)
  case Nil
  then show ?case by simp
next
  case (snoc h hs)
  show ?case
  proof (cases "hs = []")
    case True
    then show ?thesis by (simp add: pickBest_pickStep pickStep_def)
  next
    case False
    with snoc.IH obtain k where k: "k < length hs"
      and pk: "pickBest lower hs = (Some (hs ! k), enat (levenshtein lower (hs ! k)))"
      and least: "\<forall>x\<in>set hs. levenshtein lower (hs ! k) \<le> levenshtein lower x"
      and first: "\<forall>m<k. levenshtein lower (hs ! k) < levenshtein lower (hs ! m)"
      by blast
    show ?thesis
    proof (cases "levenshtein lower h < levenshtein lower (hs ! k)")
      case True
      have "pickBest lower (hs @ [h]) = (Some h, enat (levenshtein lower h))"
        using True pk by (simp add: pickBest_snoc pickStep_def)
      moreover have "\<forall>x\<in>set (hs @ [h]). levenshtein lower h \<le> levenshtein lower x"
        using True least by fastforce
      moreover have "\<forall>m<length hs. levenshtein lower h < levenshtein lower ((hs @ [h]) ! m)"
      proof (intro allI impI)
        fix m assume m: "m < length hs"
        then have "levenshtein lower (hs ! k) \<le> levenshtein lower (hs ! m)"
          using least by simp
        with True m show "levenshtein lower h < levenshtein lower ((hs @ [h]) ! m)"
          by (simp add: nth_append)
      qed
      ultimately show ?thesis
        by (intro exI[of _ "length hs"]) simp
    next
      case False
      have "pickBest lower (hs @ [h]) = (Some (hs ! k), enat (levenshtein lower (hs ! k)))"
        using False pk by (simp add: pickBest_snoc pickStep_def)
      moreover have "\<forall>x\<in>set (hs @ [h]). levenshtein lower (hs ! k) \<le> levenshtein lower x"
        using False least by auto
      moreover have "\<forall>m<k. levenshtein lower (hs ! k) < levenshtein lower ((hs @ [h]) ! m)"
        using first k by (simp add: nth_append)
      ultimately show ?thesis
        using k by (intro exI[of _ k]) (simp add: nth_append)
    qed
  qed
qed

lemma codeUnits_Nil [simp]: "codeUnits [] = []"
  by (simp add: codeUnits_def)

lemma codeUnits_Cons: "codeUnits (c # cs) = of_char c # codeUnits cs"
  by (simp add: codeUnits_def)

lemma codeUnits_eq_Nil [simp]: "codeUnits s = [] \<longleftrightarrow> s = []"
  by (simp add: codeUnits_def)

lemma codeUnits_inject [simp]: "codeUnits s = codeUnits t \<longleftrightarrow> s = t"
proof -
  have "inj (of_char :: char \<Rightarrow> nat)" by (rule inj_of_char)
  then show ?thesis unfolding codeUnits_def by (simp add: inj_map_eq_map)
qed

lemma fromCodeUnits_Nil [simp]: "fromCodeUnits [] = []"
  by (simp add: fromCodeUnits_def)

lemma fromCodeUnits_codeUnits [simp]: "fromCodeUnits (codeUnits s) = s"
  by (induction s) (simp_all add: fromCodeUnits_def codeUnits_def)

lemma toUpperCaseUnit_nonempty: "toUpperCaseUnit c \<noteq> []"
  by (simp add: toUpperCaseUnit_def Let_def)

lemma toUpperCase_nonempty: "s \<noteq> [] \<Longrightarrow> toUpperCase s \<noteq> []"
  by (cases s) (simp_all add: toUpperCase_def toUpperCaseUnit_nonempty)

lemma preserveCase_nonempty:
  "original \<noteq> [] \<Longrightarrow> preserveCase original corrected \<noteq> []"
  by (auto simp add: preserveCase_def toUpperCase_nonempty toUpperCaseUnit_nonempty
      toUpperCase_def split: option.splits list.splits)

lemma set_setAdd [simp]: "set (setAdd s x) = insert x (set s)"
  by (auto simp add: setAdd_def)

lemma set_fold_setAdd:
  "set (fold (\<lambda>x cs. setAdd cs (f x)) xs cs0) = set cs0 \<union> f ` set xs"
  by (induction xs arbitrary: cs0) auto

lemma set_fold_setAdd_if:
  "set (fold (\<lambda>x cs. if p x then setAdd cs (f x) else cs) xs cs0)
     = set cs0 \<union> f ` {x \<in> set xs. p x}"
  by (induction xs arbitrary: cs0) auto

lemma set_addRepeats: "set (addRepeats lower cs) = set cs \<union> set (repeatVariants lower)"
  using set_fold_setAdd[of "\<lambda>v. v" "repeatVariants lower" cs] by (simp add: addRepeats_def)

lemma set_addDeletions:
  "set (addDeletions lower cs) = set cs \<union> {take i lower @ drop (i + 1) lower | i. i < length lower}"
  by (simp only: addDeletions_def set_fold_setAdd) auto

lemma set_fold_fold_setAdd:
  "set (fold (\<lambda>i cs. fold (\<lambda>c cs. setAdd cs (f i c)) ys cs) xs cs0)
     = set cs0 \<union> {f i c | i c. i \<in> set xs \<and> c \<in> set ys}"
  by (induction xs arbitrary: cs0) (auto simp add: set_fold_setAdd)

lemma set_fold_fold_setAdd_if:
  "set (fold (\<lambda>i cs. fold (\<lambda>c cs. if p i c then setAdd cs (f i c) else cs) ys cs) xs cs0)
     = set cs0 \<union> {f i c | i c. i \<in> set xs \<and> c \<in> set ys \<and> p i c}"
  by (induction xs arbitrary: cs0) (auto simp add: set_fold_setAdd_if)

lemma set_addInsertions:
  "set (addInsertions lower cs) = set cs \<union>
     {take i lower @ [c] @ drop i lower | i c. i \<le> length lower \<and> c \<in> set alphabet}"
proof -
  have "\<And>i. i \<in> set [0..<length lower + 1] \<longleftrightarrow> i \<le> length lower" by auto
  then show ?thesis by (simp only: addInsertions_def set_fold_fold_setAdd)
qed

lemma set_addSubstitutions:
  "set (addSubstitutions lower cs) = set cs \<union>
     {take i lower @ [c] @ drop (i + 1) lower | i c.
        i < length lower \<and> c \<in> set alphabet \<and> c \<noteq> lower ! i}"
  by (simp only: addSubstitutions_def set_fold_fold_setAdd_if) auto

lemma set_generateCandidates:
  "set (generateCandidates lower) =
     set (repeatVariants lower)
     \<union> {take i lower @ drop (i + 1) lower | i. i < length lower}
     \<union> {take i lower @ [c] @ drop i lower | i c. i \<le> length lower \<and> c \<in> set alphabet}
     \<union> {take i lower @ [c] @ drop (i + 1) lower | i c.
          i < length lower \<and> c \<in> set alphabet \<and> c \<noteq> lower ! i}"
  by (simp add: generateCandidates_def set_addSubstitutions set_addInsertions set_addDeletions
      set_addRepeats)

lemma cat_candidate_of_ct: "''cat'' \<in> set (generateCandidates ''ct'')"
proof -
  have "''cat'' = take 1 ''ct'' @ [CHR ''a''] @ drop 1 ''ct''" by simp
  moreover have "CHR ''a'' \<in> set alphabet" by (simp add: alphabet_def)
  ultimately have "''cat'' \<in> {take i ''ct'' @ [c] @ drop i ''ct'' | i c.
      i \<le> length ''ct'' \<and> c \<in> set alphabet}"
    by (intro CollectI exI[of _ "1::nat"] exI[of _ "CHR ''a''"]) simp
  then show ?thesis by (simp only: set_generateCandidates Un_iff) blast
qed


lemma toUpperCase_Cons: "toUpperCase (c # cs) = toUpperCaseUnit c @ toUpperCase cs"
  by (simp add: toUpperCase_def)

lemma toUpperCase_single: "toUpperCase [c] = toUpperCaseUnit c"
  by (simp add: toUpperCase_def)


lemma preserveCase_Some:
  assumes "corrected \<noteq> []"
  shows "preserveCase original (Some corrected) =
           (if toUpperCase original = codeUnits original then toUpperCase corrected
            else if toUpperCaseUnit (hd original) = [of_char (hd original)]
                 then toUpperCase [hd corrected] @ codeUnits (tl corrected)
                 else codeUnits corrected)"
proof -
  from assms obtain c cs where c: "corrected = c # cs" by (cases corrected) auto
  show ?thesis
  proof (cases original)
    case Nil
    then show ?thesis by (simp add: preserveCase_def c toUpperCase_def)
  next
    case (Cons x xs)
    then show ?thesis by (simp add: preserveCase_def c toUpperCase_single codeUnits_Cons)
  qed
qed

lemma pickBest_in_hits:
  assumes "hits \<noteq> []"
  shows "\<exists>b\<in>set hits. fst (pickBest lower hits) = Some b"
proof -
  from pickBest_first_min[OF assms, of lower] obtain k where "k < length hits"
    and "pickBest lower hits = (Some (hits ! k), enat (levenshtein lower (hits ! k)))"
    by blast
  then show ?thesis by (intro bexI[of _ "hits ! k"]) simp_all
qed

section \<open>The table of \<open>levenshtein\<close>\<close>

lemma fold_upt_invariant:
  assumes "lo \<le> hi" and "P lo s"
    and "\<And>k t. lo \<le> k \<Longrightarrow> k < hi \<Longrightarrow> P k t \<Longrightarrow> P (Suc k) (f k t)"
  shows "P hi (fold f [lo..<hi] s)"
  using assms
proof (induction hi)
  case 0
  then show ?case by simp
next
  case (Suc hi)
  show ?case
  proof (cases "lo = Suc hi")
    case True
    with Suc.prems show ?thesis by simp
  next
    case False
    with Suc.prems have le: "lo \<le> hi" by simp
    have "P hi (fold f [lo..<hi] s)"
      using le Suc.prems(2) Suc.prems(3) by (intro Suc.IH) auto
    then have "P (Suc hi) (f hi (fold f [lo..<hi] s))"
      using le by (intro Suc.prems(3)) auto
    with le show ?thesis by simp
  qed
qed

lemma wfTable_setCell:
  assumes "wfTable m n dp"
  shows "wfTable m n (setCell dp i j v)"
proof (cases "i \<le> m")
  case True
  with assms show ?thesis
    by (auto simp add: wfTable_def setCell_def nth_list_update)
next
  case False
  with assms have "setCell dp i j v = dp"
    by (simp add: wfTable_def setCell_def list_update_beyond)
  with assms show ?thesis by simp
qed

lemma nth_setCell:
  "wfTable m n dp \<Longrightarrow> i \<le> m \<Longrightarrow> j \<le> n \<Longrightarrow> i' \<le> m \<Longrightarrow>
   setCell dp i j v ! i' ! j' = (if i' = i \<and> j' = j then v else dp ! i' ! j')"
  by (auto simp add: wfTable_def setCell_def nth_list_update)

lemma editDistance_Nil_right: "editDistance xs [] = length xs"
  by (cases xs) simp_all

lemma prefixDistance_0_left: "j \<le> length b \<Longrightarrow> prefixDistance a b 0 j = j"
  by (simp add: prefixDistance_def)

lemma prefixDistance_0_right: "i \<le> length a \<Longrightarrow> prefixDistance a b i 0 = i"
  by (simp add: prefixDistance_def editDistance_Nil_right)

lemma prefixDistance_Suc:
  assumes "i < length a" and "j < length b"
  shows "prefixDistance a b (Suc i) (Suc j) =
           min (prefixDistance a b i (Suc j) + 1)
             (min (prefixDistance a b (Suc i) j + 1)
               (prefixDistance a b i j + (if a ! i = b ! j then 0 else 1)))"
  using assms by (simp add: prefixDistance_def take_Suc_conv_app_nth)

lemma filled_setCell:
  assumes "filled a b done dp" and "i \<le> length a" and "j \<le> length b"
    and "v = prefixDistance a b i j"
    and "\<And>i' j'. done' i' j' \<Longrightarrow> done i' j' \<or> (i' = i \<and> j' = j)"
  shows "filled a b done' (setCell dp i j v)"
  unfolding filled_def
proof (intro conjI allI impI)
  show "wfTable (length a) (length b) (setCell dp i j v)"
    using assms(1) by (simp add: filled_def wfTable_setCell)
next
  fix i' j'
  assume b: "i' \<le> length a" "j' \<le> length b" and d: "done' i' j'"
  have wf: "wfTable (length a) (length b) dp" using assms(1) by (simp add: filled_def)
  have nth: "setCell dp i j v ! i' ! j' = (if i' = i \<and> j' = j then v else dp ! i' ! j')"
    using wf assms(2,3) b(1) by (rule nth_setCell)
  from assms(5)[OF d] show "setCell dp i j v ! i' ! j' = prefixDistance a b i' j'"
  proof
    assume "i' = i \<and> j' = j"
    with nth assms(4) show ?thesis by simp
  next
    assume "done i' j'"
    with assms(1) b have "dp ! i' ! j' = prefixDistance a b i' j'" by (simp add: filled_def)
    with nth assms(4) show ?thesis by auto
  qed
qed

lemma filled_mono:
  assumes "filled a b done dp"
    and "\<And>i j. i \<le> length a \<Longrightarrow> j \<le> length b \<Longrightarrow> done' i j \<Longrightarrow> done i j"
  shows "filled a b done' dp"
  using assms by (simp add: filled_def)

lemma filled_init:
  "filled a b (\<lambda>i j. False) (replicate (length a + 1) (replicate (length b + 1) 0))"
proof -
  have "replicate (length a + 1) (replicate (length b + 1) (0::nat)) ! i
          = replicate (length b + 1) 0" if "i \<le> length a" for i
    using that by (intro nth_replicate) simp
  then show ?thesis by (simp add: filled_def wfTable_def del: replicate_Suc)
qed

lemma filled_column:
  assumes "filled a b (\<lambda>i j. False) dp"
  shows "filled a b (\<lambda>i j. j = 0)
           (fold (\<lambda>i dp. setCell dp i 0 i) [0..<length a + 1] dp)"
proof -
  have "filled a b (\<lambda>i j. j = 0 \<and> i < length a + 1)
          (fold (\<lambda>i dp. setCell dp i 0 i) [0..<length a + 1] dp)"
  proof (rule fold_upt_invariant[where P = "\<lambda>k. filled a b (\<lambda>i j. j = 0 \<and> i < k)"])
    show "0 \<le> length a + 1" by simp
    show "filled a b (\<lambda>i j. j = 0 \<and> i < 0) dp"
      using assms by (rule filled_mono) simp
  next
    fix k t
    assume k: "k < length a + 1" and t: "filled a b (\<lambda>i j. j = 0 \<and> i < k) t"
    from t show "filled a b (\<lambda>i j. j = 0 \<and> i < Suc k) (setCell t k 0 k)"
    proof (rule filled_setCell)
      show "k \<le> length a" using k by simp
      show "0 \<le> length b" by simp
      show "k = prefixDistance a b k 0" using k by (simp add: prefixDistance_0_right)
    qed auto
  qed
  then show ?thesis by (rule filled_mono) simp
qed

lemma filled_row:
  assumes "filled a b (\<lambda>i j. j = 0) dp"
  shows "filled a b (\<lambda>i j. j = 0 \<or> i = 0)
           (fold (\<lambda>j dp. setCell dp 0 j j) [0..<length b + 1] dp)"
proof -
  have "filled a b (\<lambda>i j. j = 0 \<or> (i = 0 \<and> j < length b + 1))
          (fold (\<lambda>j dp. setCell dp 0 j j) [0..<length b + 1] dp)"
  proof (rule fold_upt_invariant[where P = "\<lambda>k. filled a b (\<lambda>i j. j = 0 \<or> (i = 0 \<and> j < k))"])
    show "0 \<le> length b + 1" by simp
    show "filled a b (\<lambda>i j. j = 0 \<or> (i = 0 \<and> j < 0)) dp"
      using assms by (rule filled_mono) simp
  next
    fix k t
    assume k: "k < length b + 1" and t: "filled a b (\<lambda>i j. j = 0 \<or> (i = 0 \<and> j < k)) t"
    from t show "filled a b (\<lambda>i j. j = 0 \<or> (i = 0 \<and> j < Suc k)) (setCell t 0 k k)"
    proof (rule filled_setCell)
      show "0 \<le> length a" by simp
      show "k \<le> length b" using k by simp
      show "k = prefixDistance a b 0 k" using k by (simp add: prefixDistance_0_left)
    qed auto
  qed
  then show ?thesis by (rule filled_mono) auto
qed

lemma filled_innerStep:
  assumes t: "filled a b (\<lambda>i' j'. j' = 0 \<or> i' = 0 \<or> i' < i \<or> (i' = i \<and> j' < j)) t"
    and i: "1 \<le> i" "i \<le> length a" and j: "1 \<le> j" "j \<le> length b"
  shows "filled a b (\<lambda>i' j'. j' = 0 \<or> i' = 0 \<or> i' < i \<or> (i' = i \<and> j' < Suc j))
           (innerStep a b i j t)"
proof -
  obtain i0 j0 where ij: "i = Suc i0" "j = Suc j0"
    using i j by (cases i; cases j) auto
  have cell: "t ! i' ! j' = prefixDistance a b i' j'"
    if "i' \<le> length a" "j' \<le> length b" "j' = 0 \<or> i' = 0 \<or> i' < i \<or> (i' = i \<and> j' < j)"
    for i' j'
    using t that unfolding filled_def by blast
  have r1: "t ! i0 ! Suc j0 = prefixDistance a b i0 (Suc j0)"
    using i j ij by (intro cell) simp_all
  have r2: "t ! Suc i0 ! j0 = prefixDistance a b (Suc i0) j0"
    using i j ij by (intro cell) simp_all
  have r3: "t ! i0 ! j0 = prefixDistance a b i0 j0"
    using i j ij by (intro cell) simp_all
  have "prefixDistance a b (Suc i0) (Suc j0) =
           min (prefixDistance a b i0 (Suc j0) + 1)
             (min (prefixDistance a b (Suc i0) j0 + 1)
               (prefixDistance a b i0 j0 + (if a ! i0 = b ! j0 then 0 else 1)))"
    using i j ij by (intro prefixDistance_Suc) simp_all
  then have v: "min (t ! (i - 1) ! j + 1)
             (min (t ! i ! (j - 1) + 1)
               (t ! (i - 1) ! (j - 1) + (if a ! (i - 1) = b ! (j - 1) then 0 else 1)))
           = prefixDistance a b i j"
    by (simp only: ij diff_Suc_1 r1 r2 r3)
  have "filled a b (\<lambda>i' j'. j' = 0 \<or> i' = 0 \<or> i' < i \<or> (i' = i \<and> j' < Suc j))
          (setCell t i j (prefixDistance a b i j))"
    using t i(2) j(2) by (rule filled_setCell) auto
  then show ?thesis by (simp only: innerStep_def Let_def v)
qed

lemma filled_inner_loop:
  assumes t: "filled a b (\<lambda>i' j'. j' = 0 \<or> i' = 0 \<or> i' < i) t"
    and i: "1 \<le> i" "i \<le> length a"
  shows "filled a b (\<lambda>i' j'. j' = 0 \<or> i' = 0 \<or> i' < Suc i)
           (fold (innerStep a b i) [1..<length b + 1] t)"
proof -
  have "filled a b (\<lambda>i' j'. j' = 0 \<or> i' = 0 \<or> i' < i \<or> (i' = i \<and> j' < length b + 1))
          (fold (innerStep a b i) [1..<length b + 1] t)"
  proof (rule fold_upt_invariant[where
        P = "\<lambda>k. filled a b (\<lambda>i' j'. j' = 0 \<or> i' = 0 \<or> i' < i \<or> (i' = i \<and> j' < k))"])
    show "1 \<le> length b + 1" by simp
    show "filled a b (\<lambda>i' j'. j' = 0 \<or> i' = 0 \<or> i' < i \<or> (i' = i \<and> j' < 1)) t"
      using t by (rule filled_mono) auto
  next
    fix k u
    assume "1 \<le> k" "k < length b + 1"
      and "filled a b (\<lambda>i' j'. j' = 0 \<or> i' = 0 \<or> i' < i \<or> (i' = i \<and> j' < k)) u"
    then show "filled a b (\<lambda>i' j'. j' = 0 \<or> i' = 0 \<or> i' < i \<or> (i' = i \<and> j' < Suc k))
                 (innerStep a b i k u)"
      using i by (intro filled_innerStep) auto
  qed
  then show ?thesis by (rule filled_mono) auto
qed

lemma filled_outer_loop:
  assumes "filled a b (\<lambda>i j. j = 0 \<or> i = 0) dp"
  shows "filled a b (\<lambda>i j. True)
           (fold (\<lambda>i dp. fold (innerStep a b i) [1..<length b + 1] dp) [1..<length a + 1] dp)"
proof -
  have "filled a b (\<lambda>i' j'. j' = 0 \<or> i' = 0 \<or> i' < length a + 1)
          (fold (\<lambda>i dp. fold (innerStep a b i) [1..<length b + 1] dp) [1..<length a + 1] dp)"
  proof (rule fold_upt_invariant[where
        P = "\<lambda>k. filled a b (\<lambda>i' j'. j' = 0 \<or> i' = 0 \<or> i' < k)"])
    show "1 \<le> length a + 1" by simp
    show "filled a b (\<lambda>i' j'. j' = 0 \<or> i' = 0 \<or> i' < 1) dp"
      using assms by (rule filled_mono) auto
  next
    fix k u
    assume "1 \<le> k" "k < length a + 1"
      and "filled a b (\<lambda>i' j'. j' = 0 \<or> i' = 0 \<or> i' < k) u"
    then show "filled a b (\<lambda>i' j'. j' = 0 \<or> i' = 0 \<or> i' < Suc k)
                 (fold (innerStep a b k) [1..<length b + 1] u)"
      by (intro filled_inner_loop) auto
  qed
  then show ?thesis by (rule filled_mono) auto
qed

lemma levenshteinTable_innerStep:
  "levenshteinTable a b =
     fold (\<lambda>i dp. fold (innerStep a b i) [1..<length b + 1] dp) [1..<length a + 1]
        (fold (\<lambda>j dp. setCell dp 0 j j) [0..<length b + 1]
          (fold (\<lambda>i dp. setCell dp i 0 i) [0..<length a + 1]
            (replicate (length a + 1) (replicate (length b + 1) 0))))"
proof -
  have "(\<lambda>j dp.
           let cost = (if a ! (i - 1) = b ! (j - 1) then 0 else 1)
           in setCell dp i j
                (min (dp ! (i - 1) ! j + 1)
                  (min (dp ! i ! (j - 1) + 1)
                    (dp ! (i - 1) ! (j - 1) + cost)))) = innerStep a b i" for i
    by (simp add: innerStep_def fun_eq_iff)
  then show ?thesis by (simp only: levenshteinTable_def Let_def)
qed

lemma filled_levenshteinTable: "filled a b (\<lambda>i j. True) (levenshteinTable a b)"
  unfolding levenshteinTable_innerStep
  by (intro filled_outer_loop filled_row filled_column filled_init)

lemma levenshteinTable_cell:
  "i \<le> length a \<Longrightarrow> j \<le> length b \<Longrightarrow>
   levenshteinTable a b ! i ! j = editDistance (rev (take i a)) (rev (take j b))"
  using filled_levenshteinTable[of a b] by (simp add: filled_def prefixDistance_def)

lemma levenshtein_editDistance: "levenshtein a b = editDistance (rev a) (rev b)"
  by (simp add: levenshtein_def levenshteinTable_cell)

subsection \<open>Single edits\<close>

lemma edit1_Cons: "edit1 xs ys \<Longrightarrow> edit1 (c # xs) (c # ys)"
proof (induction rule: edit1.induct)
  case (insertion xs ys d)
  show ?case using edit1.insertion[of "c # xs" ys d] by simp
next
  case (deletion xs d ys)
  show ?case using edit1.deletion[of "c # xs" d ys] by simp
next
  case (substitution d e xs ys)
  then show ?case using edit1.substitution[of d e "c # xs" ys] by simp
qed

lemma edit1_rev: "edit1 xs ys \<Longrightarrow> edit1 (rev xs) (rev ys)"
proof (induction rule: edit1.induct)
  case (insertion xs ys d)
  show ?case using edit1.insertion[of "rev ys" "rev xs" d] by simp
next
  case (deletion xs d ys)
  show ?case using edit1.deletion[of "rev ys" d "rev xs"] by simp
next
  case (substitution d e xs ys)
  then show ?case using edit1.substitution[of d e "rev ys" "rev xs"] by simp
qed

lemma edits_Cons: "(edit1 ^^ n) xs ys \<Longrightarrow> (edit1 ^^ n) (c # xs) (c # ys)"
proof (induction n arbitrary: ys)
  case 0
  then show ?case by simp
next
  case (Suc n)
  then obtain zs where "(edit1 ^^ n) xs zs" and "edit1 zs ys" by auto
  with Suc.IH have "(edit1 ^^ n) (c # xs) (c # zs)" and "edit1 (c # zs) (c # ys)"
    by (auto intro: edit1_Cons)
  then show ?case by auto
qed

lemma edits_rev: "(edit1 ^^ n) xs ys \<Longrightarrow> (edit1 ^^ n) (rev xs) (rev ys)"
proof (induction n arbitrary: ys)
  case 0
  then show ?case by simp
next
  case (Suc n)
  then obtain zs where "(edit1 ^^ n) xs zs" and "edit1 zs ys" by auto
  with Suc.IH have "(edit1 ^^ n) (rev xs) (rev zs)" and "edit1 (rev zs) (rev ys)"
    by (auto intro: edit1_rev)
  then show ?case by auto
qed

lemma edit1_insert_head: "edit1 ys (c # ys)"
  using edit1.insertion[of "[]" ys c] by simp

lemma edit1_delete_head: "edit1 (c # ys) ys"
  using edit1.deletion[of "[]" c ys] by simp

lemma edit1_substitute_head: "c \<noteq> d \<Longrightarrow> edit1 (c # ys) (d # ys)"
  using edit1.substitution[of c d "[]" ys] by simp

subsection \<open>The recurrence is reached by that many edits\<close>

lemma edits_from_Nil: "(edit1 ^^ length ys) [] ys"
proof (induction ys)
  case Nil
  show ?case by simp
next
  case (Cons c ys)
  have "edit1 [] [c]" by (rule edit1_insert_head)
  moreover have "(edit1 ^^ length ys) [c] (c # ys)" using Cons.IH by (rule edits_Cons)
  ultimately have "(edit1 ^^ Suc (length ys)) [] (c # ys)" by (rule relpowp_Suc_I2)
  then show ?case by simp
qed

lemma edits_to_Nil: "(edit1 ^^ length xs) xs []"
proof (induction xs)
  case Nil
  show ?case by simp
next
  case (Cons c xs)
  have "edit1 (c # xs) xs" by (rule edit1_delete_head)
  then have "(edit1 ^^ Suc (length xs)) (c # xs) []" using Cons.IH by (rule relpowp_Suc_I2)
  then show ?case by simp
qed

lemma min3_cases:
  "min a (min b c) = a \<or> min a (min b c) = b \<or> min a (min b c) = (c::nat)"
  by (simp add: min_def)

lemma le_min3_Suc:
  "x \<le> a + 1 \<Longrightarrow> x \<le> b + 1 \<Longrightarrow> x \<le> c + 1 \<Longrightarrow> x \<le> min a (min b c) + (1::nat)"
  by (simp add: min_def)

lemma editDistance_reached: "(edit1 ^^ editDistance xs ys) xs ys"
proof (induction xs ys rule: editDistance.induct)
  case (1 ys)
  show ?case using edits_from_Nil[of ys] by simp
next
  case (2 x xs)
  show ?case using edits_to_Nil[of "x # xs"] by simp
next
  case (3 x xs y ys)
  define d1 d2 d3 where "d1 = editDistance xs (y # ys)" and "d2 = editDistance (x # xs) ys"
    and "d3 = editDistance xs ys"
  define k :: nat where "k = (if x = y then 0 else 1)"
  have val: "editDistance (x # xs) (y # ys) = min (d1 + 1) (min (d2 + 1) (d3 + k))"
    by (simp add: d1_def d2_def d3_def k_def)
  have del: "(edit1 ^^ (d1 + 1)) (x # xs) (y # ys)"
    using relpowp_Suc_I2[OF edit1_delete_head "3.IH"(1)] by (simp add: d1_def)
  have ins: "(edit1 ^^ (d2 + 1)) (x # xs) (y # ys)"
    using relpowp_Suc_I2[OF edit1_insert_head edits_Cons[OF "3.IH"(2)]] by (simp add: d2_def)
  have sub: "(edit1 ^^ (d3 + k)) (x # xs) (y # ys)"
  proof (cases "x = y")
    case True
    then show ?thesis using edits_Cons[OF "3.IH"(3), of x] by (simp add: d3_def k_def)
  next
    case False
    then show ?thesis
      using relpowp_Suc_I2[OF edit1_substitute_head[OF False] edits_Cons[OF "3.IH"(3)]]
      by (simp add: d3_def k_def)
  qed
  from min3_cases[of "d1 + 1" "d2 + 1" "d3 + k"] del ins sub show ?case
    by (auto simp only: val)
qed

subsection \<open>One edit changes the recurrence by at most one\<close>

lemma editDistance_drop_left: "editDistance (x # xs) ys \<le> editDistance xs ys + 1"
  by (cases ys) (simp_all add: editDistance_Nil_right min_le_iff_disj)

lemma editDistance_drop_right: "editDistance xs (y # ys) \<le> editDistance xs ys + 1"
  by (cases xs) (simp_all add: min_le_iff_disj)

lemma editDistance_drop_both:
  "editDistance (x # xs) (y # ys) \<le> editDistance xs ys + (if x = y then 0 else 1)"
  by (simp add: min_le_iff_disj)

lemma editDistance_delete_head: "editDistance xs ys \<le> editDistance xs (c # ys) + 1"
proof (induction xs)
  case Nil
  show ?case by simp
next
  case (Cons x xs)
  define k :: nat where "k = (if x = c then 0 else 1)"
  have val: "editDistance (x # xs) (c # ys) =
      min (editDistance xs (c # ys) + 1)
        (min (editDistance (x # xs) ys + 1) (editDistance xs ys + k))"
    by (simp add: k_def)
  have l: "editDistance (x # xs) ys \<le> editDistance xs ys + 1" by (rule editDistance_drop_left)
  have "editDistance (x # xs) ys \<le> (editDistance xs (c # ys) + 1) + 1"
    using l Cons.IH by linarith
  moreover have "editDistance (x # xs) ys \<le> (editDistance (x # xs) ys + 1) + 1" by simp
  moreover have "editDistance (x # xs) ys \<le> (editDistance xs ys + k) + 1" using l by simp
  ultimately show ?case unfolding val by (rule le_min3_Suc)
qed

lemma editDistance_substitute_head: "editDistance xs (d # ys) \<le> editDistance xs (c # ys) + 1"
proof (induction xs)
  case Nil
  show ?case by simp
next
  case (Cons x xs)
  define k :: nat where "k = (if x = c then 0 else 1)"
  have val: "editDistance (x # xs) (c # ys) =
      min (editDistance xs (c # ys) + 1)
        (min (editDistance (x # xs) ys + 1) (editDistance xs ys + k))"
    by (simp add: k_def)
  have 1: "editDistance (x # xs) (d # ys) \<le> editDistance xs (d # ys) + 1"
    by (rule editDistance_drop_left)
  have 2: "editDistance (x # xs) (d # ys) \<le> editDistance (x # xs) ys + 1"
    by (rule editDistance_drop_right)
  have 3: "editDistance (x # xs) (d # ys) \<le> editDistance xs ys + 1"
    using editDistance_drop_both[of x xs d ys] by (simp split: if_splits)
  have "editDistance (x # xs) (d # ys) \<le> (editDistance xs (c # ys) + 1) + 1"
    using 1 Cons.IH by linarith
  moreover have "editDistance (x # xs) (d # ys) \<le> (editDistance (x # xs) ys + 1) + 1"
    using 2 by simp
  moreover have "editDistance (x # xs) (d # ys) \<le> (editDistance xs ys + k) + 1"
    using 3 by simp
  ultimately show ?case unfolding val by (rule le_min3_Suc)
qed

lemma editDistance_keep_head:
  assumes "\<And>xs. editDistance xs ys' \<le> editDistance xs ys + 1"
  shows "editDistance xs (c # ys') \<le> editDistance xs (c # ys) + 1"
proof (induction xs)
  case Nil
  show ?case using assms[of "[]"] by simp
next
  case (Cons x xs)
  define k :: nat where "k = (if x = c then 0 else 1)"
  have val: "editDistance (x # xs) (c # ys) =
      min (editDistance xs (c # ys) + 1)
        (min (editDistance (x # xs) ys + 1) (editDistance xs ys + k))"
    by (simp add: k_def)
  have 1: "editDistance (x # xs) (c # ys') \<le> editDistance xs (c # ys') + 1"
    by (rule editDistance_drop_left)
  have 2: "editDistance (x # xs) (c # ys') \<le> editDistance (x # xs) ys' + 1"
    by (rule editDistance_drop_right)
  have 3: "editDistance (x # xs) (c # ys') \<le> editDistance xs ys' + k"
    using editDistance_drop_both[of x xs c ys'] by (simp add: k_def)
  have 4: "editDistance (x # xs) ys' \<le> editDistance (x # xs) ys + 1"
    and 5: "editDistance xs ys' \<le> editDistance xs ys + 1"
    by (rule assms)+
  have "editDistance (x # xs) (c # ys') \<le> (editDistance xs (c # ys) + 1) + 1"
    using 1 Cons.IH by linarith
  moreover have "editDistance (x # xs) (c # ys') \<le> (editDistance (x # xs) ys + 1) + 1"
    using 2 4 by linarith
  moreover have "editDistance (x # xs) (c # ys') \<le> (editDistance xs ys + k) + 1"
    using 3 5 by linarith
  ultimately show ?case unfolding val by (rule le_min3_Suc)
qed

lemma editDistance_edit1:
  assumes "edit1 ys ys'"
  shows "editDistance xs ys' \<le> editDistance xs ys + 1"
  using assms
proof (induction arbitrary: xs rule: edit1.induct)
  case (insertion ps qs c)
  show ?case
  proof (induction ps arbitrary: xs)
    case Nil
    show ?case using editDistance_drop_right[of xs c qs] by simp
  next
    case (Cons p ps)
    show ?case using editDistance_keep_head[of "ps @ [c] @ qs" "ps @ qs" xs p] Cons.IH by simp
  qed
next
  case (deletion ps c qs)
  show ?case
  proof (induction ps arbitrary: xs)
    case Nil
    show ?case using editDistance_delete_head[of xs qs c] by simp
  next
    case (Cons p ps)
    show ?case using editDistance_keep_head[of "ps @ qs" "ps @ [c] @ qs" xs p] Cons.IH by simp
  qed
next
  case (substitution c d ps qs)
  show ?case
  proof (induction ps arbitrary: xs)
    case Nil
    show ?case using editDistance_substitute_head[of xs d qs c] by simp
  next
    case (Cons p ps)
    show ?case
      using editDistance_keep_head[of "ps @ [d] @ qs" "ps @ [c] @ qs" xs p] Cons.IH by simp
  qed
qed

lemma editDistance_least: "(edit1 ^^ n) xs ys \<Longrightarrow> editDistance xs ys \<le> n"
proof (induction n arbitrary: ys)
  case 0
  then have "ys = xs" by simp
  moreover have "editDistance xs xs = 0" by (induction xs) simp_all
  ultimately show ?case by simp
next
  case (Suc n)
  then obtain zs where "(edit1 ^^ n) xs zs" and e: "edit1 zs ys" by auto
  with Suc.IH have "editDistance xs zs \<le> n" by simp
  with editDistance_edit1[OF e, of xs] show ?case by simp
qed

lemma levenshtein_reached: "(edit1 ^^ levenshtein a b) a b"
proof -
  have "(edit1 ^^ editDistance (rev a) (rev b)) (rev (rev a)) (rev (rev b))"
    by (intro edits_rev editDistance_reached)
  then show ?thesis by (simp add: levenshtein_editDistance)
qed

lemma levenshtein_least:
  assumes "(edit1 ^^ n) a b"
  shows "levenshtein a b \<le> n"
proof -
  from assms have "(edit1 ^^ n) (rev a) (rev b)" by (rule edits_rev)
  then have "editDistance (rev a) (rev b) \<le> n" by (rule editDistance_least)
  then show ?thesis by (simp add: levenshtein_editDistance)
qed

lemma levenshteinTable_prefixes:
  assumes "i \<le> length a" and "j \<le> length b"
  shows "levenshteinTable a b ! i ! j = levenshtein (take i a) (take j b)"
  using assms by (simp add: levenshteinTable_cell levenshtein_editDistance)

section \<open>The runs of \<open>repeatVariants\<close>\<close>

lemma scanRun_props:
  assumes "i < j" and "j \<le> length word" and "\<forall>k. i \<le> k \<and> k < j \<longrightarrow> word ! k = word ! i"
  shows "scanRun word i j \<le> length word
       \<and> (\<forall>k. i \<le> k \<and> k < scanRun word i j \<longrightarrow> word ! k = word ! i)
       \<and> (scanRun word i j < length word \<longrightarrow> word ! scanRun word i j \<noteq> word ! i)"
  using assms
proof (induction word i j rule: scanRun.induct)
  case (1 word i j)
  show ?case
  proof (cases "j < length word \<and> word ! j = word ! i")
    case True
    then have eq: "scanRun word i j = scanRun word i (j + 1)" by (subst scanRun.simps) simp
    have "scanRun word i (j + 1) \<le> length word
       \<and> (\<forall>k. i \<le> k \<and> k < scanRun word i (j + 1) \<longrightarrow> word ! k = word ! i)
       \<and> (scanRun word i (j + 1) < length word
            \<longrightarrow> word ! scanRun word i (j + 1) \<noteq> word ! i)"
    proof (rule "1.IH"[OF True])
      show "i < j + 1" using "1.prems"(1) by simp
      show "j + 1 \<le> length word" using True by simp
      show "\<forall>k. i \<le> k \<and> k < j + 1 \<longrightarrow> word ! k = word ! i"
      proof (intro allI impI)
        fix k assume "i \<le> k \<and> k < j + 1"
        then have "(i \<le> k \<and> k < j) \<or> k = j" by auto
        with "1.prems"(3) True show "word ! k = word ! i" by blast
      qed
    qed
    then show ?thesis unfolding eq .
  next
    case False
    then have eq: "scanRun word i j = j" by (subst scanRun.simps) auto
    from False "1.prems"(2,3) show ?thesis unfolding eq by blast
  qed
qed

lemma take_run:
  assumes "i \<le> j" and "j \<le> length word" and "\<forall>k. i \<le> k \<and> k < j \<longrightarrow> word ! k = c"
  shows "take j word = take i word @ replicate (j - i) c"
proof -
  have "take j word = take i (take j word) @ drop i (take j word)"
    by (rule append_take_drop_id[symmetric])
  also have "take i (take j word) = take i word" using assms(1) by (simp add: min_def)
  also have "drop i (take j word) = replicate (j - i) c"
  proof (rule replicate_eqI)
    show "length (drop i (take j word)) = j - i" using assms(2) by simp
  next
    fix y assume "y \<in> set (drop i (take j word))"
    then obtain k where k: "k < length (drop i (take j word))" and y: "y = drop i (take j word) ! k"
      by (auto simp add: in_set_conv_nth)
    from k assms(2) have "i + k < j" by simp
    moreover from this assms(2) have "y = word ! (i + k)" by (simp add: y)
    ultimately show "y = c" using assms(3) by simp
  qed
  finally show ?thesis .
qed

lemma expandRuns_append: "expandRuns (xs @ ys) = expandRuns xs @ expandRuns ys"
  by (simp add: expandRuns_def)

lemma expandRuns_Cons: "expandRuns (r # rs) = replicate (len r) (ch r) @ expandRuns rs"
  by (simp add: expandRuns_def)

lemma expandRuns_Nil: "expandRuns [] = []"
  by (simp add: expandRuns_def)

lemma collectRuns_maximal:
  assumes "i \<le> length word" and "expandRuns runs = take i word"
    and "\<forall>r\<in>set runs. 1 \<le> len r" and "distinct_adj (map ch runs)"
    and "runs \<noteq> [] \<and> i < length word \<longrightarrow> ch (last runs) \<noteq> word ! i"
  shows "maximalRuns word (collectRuns word i runs)"
  using assms
proof (induction word i runs rule: collectRuns.induct)
  case (1 word i runs)
  show ?case
  proof (cases "i < length word")
    case False
    then have "collectRuns word i runs = runs" by (subst collectRuns.simps) simp
    moreover from False have "take i word = word" by simp
    ultimately show ?thesis using "1.prems" by (simp add: maximalRuns_def)
  next
    case True
    define j where "j = scanRun word i (i + 1)"
    define r where "r = \<lparr>ch = word ! i, len = j - i\<rparr>"
    have eq: "collectRuns word i runs = collectRuns word j (runs @ [r])"
      using True by (subst collectRuns.simps) (simp add: j_def r_def)
    have "j \<le> length word \<and> (\<forall>k. i \<le> k \<and> k < j \<longrightarrow> word ! k = word ! i)
        \<and> (j < length word \<longrightarrow> word ! j \<noteq> word ! i)"
      unfolding j_def
    proof (rule scanRun_props)
      show "i < i + 1" by simp
      show "i + 1 \<le> length word" using True by simp
      show "\<forall>k. i \<le> k \<and> k < i + 1 \<longrightarrow> word ! k = word ! i"
      proof (intro allI impI)
        fix k assume "i \<le> k \<and> k < i + 1"
        then have "k = i" by simp
        then show "word ! k = word ! i" by simp
      qed
    qed
    then have j: "j \<le> length word" "\<forall>k. i \<le> k \<and> k < j \<longrightarrow> word ! k = word ! i"
      "j < length word \<longrightarrow> word ! j \<noteq> word ! i"
      by blast+
    have ij: "i < j" using scanRun_ge[of "i + 1" word i] by (simp add: j_def)
    have "take j word = take i word @ replicate (j - i) (word ! i)"
    proof (rule take_run)
      show "i \<le> j" using ij by simp
      show "j \<le> length word" by (rule j(1))
      show "\<forall>k. i \<le> k \<and> k < j \<longrightarrow> word ! k = word ! i" by (rule j(2))
    qed
    then have e: "expandRuns (runs @ [r]) = take j word"
      using "1.prems"(2) by (simp add: expandRuns_append expandRuns_Cons expandRuns_Nil r_def)
    have l: "\<forall>x\<in>set (runs @ [r]). 1 \<le> len x"
      using "1.prems"(3) ij by (simp add: r_def)
    have d: "distinct_adj (map ch (runs @ [r]))"
      using "1.prems"(4,5) True
      by (cases "runs = []") (simp_all add: distinct_adj_append_iff r_def last_map)
    have n: "runs @ [r] \<noteq> [] \<and> j < length word \<longrightarrow> ch (last (runs @ [r])) \<noteq> word ! j"
      using j(3) by (auto simp add: r_def)
    have "maximalRuns word (collectRuns word j (runs @ [r]))"
      unfolding j_def r_def
    proof (rule "1.IH"[OF True])
      show "scanRun word i (i + 1) \<le> length word" using j(1) by (simp only: j_def)
      show "expandRuns (runs @ [\<lparr>ch = word ! i, len = scanRun word i (i + 1) - i\<rparr>])
              = take (scanRun word i (i + 1)) word"
        using e by (simp only: j_def r_def)
      show "\<forall>x\<in>set (runs @ [\<lparr>ch = word ! i, len = scanRun word i (i + 1) - i\<rparr>]). 1 \<le> len x"
        using l by (simp only: j_def r_def)
      show "distinct_adj (map ch (runs @ [\<lparr>ch = word ! i, len = scanRun word i (i + 1) - i\<rparr>]))"
        using d by (simp only: j_def r_def)
      show "runs @ [\<lparr>ch = word ! i, len = scanRun word i (i + 1) - i\<rparr>] \<noteq> []
            \<and> scanRun word i (i + 1) < length word
          \<longrightarrow> ch (last (runs @ [\<lparr>ch = word ! i, len = scanRun word i (i + 1) - i\<rparr>]))
                \<noteq> word ! scanRun word i (i + 1)"
        using n by (simp only: j_def r_def)
    qed
    then show ?thesis by (simp only: eq)
  qed
qed

lemma maximalRuns_collectRuns: "maximalRuns word (collectRuns word 0 [])"
  by (rule collectRuns_maximal) (simp_all add: expandRuns_Nil)

lemma replicate_prefix_unique:
  assumes "replicate m c @ xs = replicate n c @ ys"
    and "xs = [] \<or> hd xs \<noteq> c" and "ys = [] \<or> hd ys \<noteq> c"
  shows "m = n \<and> xs = ys"
  using assms
proof (induction m arbitrary: n)
  case 0
  show ?case
  proof (cases n)
    case 0
    with "0.prems" show ?thesis by simp
  next
    case (Suc n')
    with "0.prems"(1) have "xs = c # replicate n' c @ ys" by simp
    with "0.prems"(2) show ?thesis by simp
  qed
next
  case (Suc m)
  show ?case
  proof (cases n)
    case 0
    with Suc.prems(1) have "ys = c # replicate m c @ xs" by simp
    with Suc.prems(3) show ?thesis by simp
  next
    case (Suc n')
    with Suc.prems(1) have "replicate m c @ xs = replicate n' c @ ys" by simp
    from Suc.IH[OF this Suc.prems(2,3)] Suc show ?thesis by simp
  qed
qed

lemma expandRuns_hd:
  assumes "\<forall>r\<in>set (r # rs). 1 \<le> len r"
  shows "expandRuns (r # rs) \<noteq> [] \<and> hd (expandRuns (r # rs)) = ch r"
proof -
  from assms obtain k where "len r = Suc k" by (cases "len r") auto
  then show ?thesis by (simp add: expandRuns_Cons)
qed

lemma expandRuns_after_run:
  assumes "\<forall>x\<in>set (r # rs). 1 \<le> len x" and "distinct_adj (map ch (r # rs))"
  shows "expandRuns rs = [] \<or> hd (expandRuns rs) \<noteq> ch r"
proof (cases rs)
  case Nil
  then show ?thesis by (simp add: expandRuns_Nil)
next
  case (Cons r' rs')
  with assms(1) have "hd (expandRuns rs) = ch r'" using expandRuns_hd[of r' rs'] by simp
  moreover from assms(2) Cons have "ch r \<noteq> ch r'" by simp
  ultimately show ?thesis by simp
qed

lemma maximalRuns_unique_aux:
  assumes "expandRuns rs = expandRuns rs'"
    and "\<forall>r\<in>set rs. 1 \<le> len r" and "distinct_adj (map ch rs)"
    and "\<forall>r\<in>set rs'. 1 \<le> len r" and "distinct_adj (map ch rs')"
  shows "rs = rs'"
  using assms
proof (induction rs arbitrary: rs')
  case Nil
  show ?case
  proof (cases rs')
    case Nil
    then show ?thesis by simp
  next
    case (Cons r' rs1')
    with Nil.prems(4) have "expandRuns rs' \<noteq> []" using expandRuns_hd[of r' rs1'] by simp
    with Nil.prems(1) show ?thesis by (simp add: expandRuns_Nil)
  qed
next
  case (Cons r rs1)
  have nz: "expandRuns (r # rs1) \<noteq> []" and h: "hd (expandRuns (r # rs1)) = ch r"
    using expandRuns_hd[OF Cons.prems(2)] by simp_all
  show ?case
  proof (cases rs')
    case Nil
    with Cons.prems(1) nz show ?thesis by (simp add: expandRuns_Nil)
  next
    case Cons': (Cons r' rs1')
    have h': "hd (expandRuns (r' # rs1')) = ch r'"
      using expandRuns_hd[of r' rs1'] Cons.prems(4) Cons' by simp
    from h h' Cons.prems(1) Cons' have c: "ch r' = ch r" by simp
    have t: "expandRuns rs1 = [] \<or> hd (expandRuns rs1) \<noteq> ch r"
      using Cons.prems(2,3) by (rule expandRuns_after_run)
    have t': "expandRuns rs1' = [] \<or> hd (expandRuns rs1') \<noteq> ch r"
      using expandRuns_after_run[of r' rs1'] Cons.prems(4,5) Cons' c by simp
    have "replicate (len r) (ch r) @ expandRuns rs1 = replicate (len r') (ch r) @ expandRuns rs1'"
      using Cons.prems(1) Cons' c by (simp add: expandRuns_Cons)
    from replicate_prefix_unique[OF this t t']
    have l: "len r = len r'" and e: "expandRuns rs1 = expandRuns rs1'" by simp_all
    have "rs1 = rs1'"
    proof (rule Cons.IH[OF e])
      show "\<forall>r\<in>set rs1. 1 \<le> len r" using Cons.prems(2) by simp
      show "distinct_adj (map ch rs1)"
        using Cons.prems(3) distinct_adj_ConsD[of "ch r" "map ch rs1"] by simp
      show "\<forall>r\<in>set rs1'. 1 \<le> len r" using Cons.prems(4) Cons' by simp
      show "distinct_adj (map ch rs1')"
        using Cons.prems(5) Cons' distinct_adj_ConsD[of "ch r'" "map ch rs1'"] by simp
    qed
    moreover from c l have "r = r'" by simp
    ultimately show ?thesis using Cons' by simp
  qed
qed

lemma maximalRuns_unique: "maximalRuns word rs \<Longrightarrow> maximalRuns word rs' \<Longrightarrow> rs = rs'"
  by (rule maximalRuns_unique_aux) (simp_all add: maximalRuns_def)

lemma specVariants_Nil: "specVariants [] = {[]}"
  by (auto simp add: specVariants_def)

lemma specVariants_Cons:
  "specVariants (r # rs) =
     {replicate n (ch r) @ v | n v. n \<in> allowedLengths r \<and> v \<in> specVariants rs}"
proof (intro set_eqI iffI)
  fix w
  assume "w \<in> specVariants (r # rs)"
  then obtain ns where w: "w = concat (map (\<lambda>(r, n). replicate n (ch r)) (zip (r # rs) ns))"
    and a: "list_all2 (\<lambda>r n. n \<in> allowedLengths r) (r # rs) ns"
    by (auto simp add: specVariants_def)
  from a obtain n ns' where ns: "ns = n # ns'" and n: "n \<in> allowedLengths r"
    and a': "list_all2 (\<lambda>r n. n \<in> allowedLengths r) rs ns'"
    by (auto simp add: list_all2_Cons1)
  have "concat (map (\<lambda>(r, n). replicate n (ch r)) (zip rs ns')) \<in> specVariants rs"
    using a' by (auto simp add: specVariants_def)
  with w ns n
  show "w \<in> {replicate n (ch r) @ v | n v. n \<in> allowedLengths r \<and> v \<in> specVariants rs}"
    by auto
next
  fix w
  assume "w \<in> {replicate n (ch r) @ v | n v. n \<in> allowedLengths r \<and> v \<in> specVariants rs}"
  then obtain n v where w: "w = replicate n (ch r) @ v" and n: "n \<in> allowedLengths r"
    and "v \<in> specVariants rs" by auto
  then obtain ns where v: "v = concat (map (\<lambda>(r, n). replicate n (ch r)) (zip rs ns))"
    and a: "list_all2 (\<lambda>r n. n \<in> allowedLengths r) rs ns"
    by (auto simp add: specVariants_def)
  have "w = concat (map (\<lambda>(r, n). replicate n (ch r)) (zip (r # rs) (n # ns)))"
    using w v by simp
  moreover have "list_all2 (\<lambda>r n. n \<in> allowedLengths r) (r # rs) (n # ns)"
    using n a by simp
  ultimately show "w \<in> specVariants (r # rs)"
    unfolding specVariants_def by blast
qed

lemma set_backtrack:
  assumes "\<forall>r\<in>set rs. 1 \<le> len r"
  shows "set (backtrack rs acc variants) = set variants \<union> (\<lambda>v. acc @ v) ` specVariants rs"
  using assms
proof (induction rs arbitrary: acc variants)
  case Nil
  show ?case by (simp add: specVariants_Nil)
next
  case (Cons r rs)
  from Cons.prems have rs: "\<forall>r\<in>set rs. 1 \<le> len r" and r: "1 \<le> len r" by simp_all
  have one: "(\<lambda>v. (acc @ [ch r]) @ v) ` specVariants rs
      = (\<lambda>v. acc @ v) ` {replicate n (ch r) @ v | n v. n = 1 \<and> v \<in> specVariants rs}"
    by (auto simp add: image_iff)
  have two: "(\<lambda>v. (acc @ [ch r, ch r]) @ v) ` specVariants rs
      = (\<lambda>v. acc @ v) ` {replicate n (ch r) @ v | n v. n = 2 \<and> v \<in> specVariants rs}"
    by (auto simp add: image_iff numeral_2_eq_2)
  show ?case
  proof (cases "len r = 1")
    case True
    then have "allowedLengths r = {1}" by (simp add: allowedLengths_def)
    then have "specVariants (r # rs)
        = {replicate n (ch r) @ v | n v. n = 1 \<and> v \<in> specVariants rs}"
      by (simp add: specVariants_Cons)
    with True Cons.IH[OF rs] one show ?thesis by simp
  next
    case False
    with r have a: "allowedLengths r = {1, 2}" by (simp add: allowedLengths_def)
    have "{f n v | n v. n \<in> {1, 2::nat} \<and> P v}
        = {f n v | n v. n = 1 \<and> P v} \<union> {f n v | n v. n = 2 \<and> P v}"
      for f :: "nat \<Rightarrow> string \<Rightarrow> string" and P
      by blast
    then have "specVariants (r # rs)
        = {replicate n (ch r) @ v | n v. n = 1 \<and> v \<in> specVariants rs}
          \<union> {replicate n (ch r) @ v | n v. n = 2 \<and> v \<in> specVariants rs}"
      by (simp only: specVariants_Cons a)
    with False Cons.IH[OF rs] one two show ?thesis by (simp add: image_Un Un_assoc)
  qed
qed

lemma set_repeatVariants:
  assumes "maximalRuns word runs"
  shows "set (repeatVariants word) = specVariants runs"
proof -
  have m: "maximalRuns word (collectRuns word 0 [])" by (rule maximalRuns_collectRuns)
  have "collectRuns word 0 [] = runs" using m assms by (rule maximalRuns_unique)
  moreover from m have "\<forall>r\<in>set (collectRuns word 0 []). 1 \<le> len r"
    by (simp add: maximalRuns_def)
  ultimately show ?thesis by (simp add: repeatVariants_def set_backtrack)
qed

lemma getCorrection_knowsOnly:
  assumes "rawWord \<noteq> []" and "toLowerCase rawWord \<noteq> h" and "h \<noteq> []"
    and "h \<in> set (generateCandidates (toLowerCase rawWord))"
  shows "getCorrection rawWord (Some (knowsOnly h)) st = (preserveCase rawWord (Some h), st)"
proof -
  define hits where "hits = collectHits (knowsOnly h) (generateCandidates (toLowerCase rawWord))"
  have mem: "h \<in> set hits"
    unfolding hits_def set_collectHits using assms(3,4) by (simp add: knowsOnly_def)
  have only: "b = h" if "b \<in> set hits" for b
    using that unfolding hits_def set_collectHits by (simp add: knowsOnly_def)
  have ne: "hits \<noteq> []" using mem by (cases hits) simp_all
  obtain b where "b \<in> set hits" and "fst (pickBest (toLowerCase rawWord) hits) = Some b"
    using pickBest_in_hits[OF ne, of "toLowerCase rawWord"] by blast
  with only have best: "fst (pickBest (toLowerCase rawWord) hits) = Some h" by simp
  have no: "\<not> knowsOnly h (toLowerCase rawWord)" using assms(2) by (simp add: knowsOnly_def)
  show ?thesis
    using assms(1) ne best no unfolding hits_def
    by (simp only: getCorrection_Some if_False if_True simp_thms)
qed

lemma coooool_to_cool:
  "getCorrection ''coooool'' (Some (knowsOnly ''cool'')) st = (codeUnits ''cool'', st)"
proof -
  have low: "toLowerCase ''coooool'' = ''coooool''" by code_simp
  have "''cool'' \<in> set (repeatVariants ''coooool'')" by code_simp
  then have c: "''cool'' \<in> set (generateCandidates (toLowerCase ''coooool''))"
    unfolding set_generateCandidates low by (intro UnI1)
  have p: "preserveCase ''coooool'' (Some ''cool'') = codeUnits ''cool''" by code_simp
  have n: "''coooool'' \<noteq> []" "toLowerCase ''coooool'' \<noteq> ''cool''" "''cool'' \<noteq> []"
    by (simp_all add: low)
  show ?thesis
    using getCorrection_knowsOnly[OF n c, of st] by (simp only: p)
qed

lemma getCorrection_unique_hit:
  assumes "rawWord \<noteq> []" and "\<not> oracle (toLowerCase rawWord)"
    and "h \<in> set (generateCandidates (toLowerCase rawWord))" and "h \<noteq> []" and "oracle h"
    and "\<And>c. c \<in> set (generateCandidates (toLowerCase rawWord)) \<Longrightarrow> oracle c \<Longrightarrow> c = h"
  shows "getCorrection rawWord (Some oracle) st = (preserveCase rawWord (Some h), st)"
proof -
  define hits where "hits = collectHits oracle (generateCandidates (toLowerCase rawWord))"
  have mem: "h \<in> set hits"
    unfolding hits_def set_collectHits using assms(3,4,5) by simp
  have only: "b = h" if "b \<in> set hits" for b
    using that assms(6)[of b] unfolding hits_def set_collectHits by simp
  have ne: "hits \<noteq> []" using mem by (cases hits) simp_all
  obtain b where "b \<in> set hits" and "fst (pickBest (toLowerCase rawWord) hits) = Some b"
    using pickBest_in_hits[OF ne, of "toLowerCase rawWord"] by blast
  with only have best: "fst (pickBest (toLowerCase rawWord) hits) = Some h" by simp
  show ?thesis
    using assms(1,2) ne best unfolding hits_def
    by (simp only: getCorrection_Some if_False if_True simp_thms)
qed

lemma edit1_deletion_at:
  assumes "i < length w"
  shows "edit1 w (take i w @ drop (i + 1) w)"
proof -
  have "edit1 (take i w @ [w ! i] @ drop (i + 1) w) (take i w @ drop (i + 1) w)"
    by (rule edit1.deletion)
  moreover have "take i w @ [w ! i] @ drop (i + 1) w = w"
    using assms by (simp add: id_take_nth_drop[symmetric])
  ultimately show ?thesis by simp
qed

lemma edit1_insertion_at: "edit1 w (take i w @ [c] @ drop i w)"
  using edit1.insertion[of "take i w" "drop i w" c] by simp

lemma edit1_substitution_at:
  assumes "i < length w" and "c \<noteq> w ! i"
  shows "edit1 w (take i w @ [c] @ drop (i + 1) w)"
proof -
  have "edit1 (take i w @ [w ! i] @ drop (i + 1) w) (take i w @ [c] @ drop (i + 1) w)"
    using assms(2) by (intro edit1.substitution) simp
  moreover have "take i w @ [w ! i] @ drop (i + 1) w = w"
    using assms(1) by (simp add: id_take_nth_drop[symmetric])
  ultimately show ?thesis by simp
qed

lemma edit1_neq: "edit1 xs ys \<Longrightarrow> xs \<noteq> ys"
  by (induction rule: edit1.induct) auto

lemma levenshtein_pos:
  assumes "a \<noteq> b"
  shows "1 \<le> levenshtein a b"
proof (rule ccontr)
  assume "\<not> 1 \<le> levenshtein a b"
  then have "levenshtein a b = 0" by simp
  with levenshtein_reached[of a b] have "a = b" by simp
  with assms show False by simp
qed

lemma levenshtein_edit1:
  assumes "edit1 a b"
  shows "levenshtein a b = 1"
proof -
  from assms have "(edit1 ^^ 1) a b" by auto
  then have "levenshtein a b \<le> 1" by (rule levenshtein_least)
  moreover have "1 \<le> levenshtein a b" using edit1_neq[OF assms] by (rule levenshtein_pos)
  ultimately show ?thesis by simp
qed

lemma candidate_cases:
  assumes "h \<in> set (generateCandidates w)"
  shows "h \<in> set (repeatVariants w) \<or> edit1 w h"
  using assms unfolding set_generateCandidates
proof (elim UnE CollectE exE conjE)
  assume "h \<in> set (repeatVariants w)"
  then show ?thesis by (rule disjI1)
next
  fix i assume "h = take i w @ drop (i + 1) w" and "i < length w"
  then show ?thesis using edit1_deletion_at[of i w] by simp
next
  fix i c assume "h = take i w @ [c] @ drop i w"
  then show ?thesis using edit1_insertion_at[of w i c] by simp
next
  fix i c assume "h = take i w @ [c] @ drop (i + 1) w" and "i < length w" and "c \<noteq> w ! i"
  then show ?thesis using edit1_substitution_at[of i w c] by simp
qed

lemma short_candidate_cases:
  assumes "h \<in> set (generateCandidates w)" and "length h < length w"
  shows "h \<in> set (repeatVariants w) \<or> (\<exists>i<length w. h = take i w @ drop (i + 1) w)"
  using assms unfolding set_generateCandidates by auto

lemma deletion_candidate:
  "i < length w \<Longrightarrow> take i w @ drop (i + 1) w \<in> set (generateCandidates w)"
  unfolding set_generateCandidates by blast

lemma repeat_candidate:
  "v \<in> set (repeatVariants w) \<Longrightarrow> v \<in> set (generateCandidates w)"
  unfolding set_generateCandidates by blast

lemma sharpS_first_call:
  "getCorrection [CHR ''1'', CHR 0xDF, CHR ''a''] (Some sharpSOracle) st = (codeUnits ''SSa'', st)"
proof -
  define w where "w = [CHR ''1'', CHR 0xDF, CHR ''a'']"
  define h where "h = [CHR 0xDF, CHR ''a'']"
  have low: "toLowerCase w = w" unfolding w_def by code_simp
  have rv: "repeatVariants w = [w]" unfolding w_def by code_simp
  have pc: "preserveCase w (Some h) = codeUnits ''SSa''" unfolding w_def h_def by code_simp
  have "h = take 0 w @ drop (0 + 1) w" by (simp add: w_def h_def)
  moreover have "0 < length w" by (simp add: w_def)
  ultimately have cand: "h \<in> set (generateCandidates (toLowerCase w))"
    unfolding low using deletion_candidate[of 0 w] by (simp only:)
  have uniq: "c = h" if c: "c \<in> set (generateCandidates (toLowerCase w))" and o: "sharpSOracle c" for c
  proof (rule ccontr)
    assume "c \<noteq> h"
    with o have sa: "c = ''sa''" by (simp add: sharpSOracle_def h_def)
    then have "length c < length w" by (simp add: w_def)
    with c have "c \<in> set (repeatVariants w) \<or> (\<exists>i<length w. c = take i w @ drop (i + 1) w)"
      unfolding low by (rule short_candidate_cases)
    then show False
    proof
      assume "c \<in> set (repeatVariants w)"
      then show False unfolding rv by (simp add: sa w_def)
    next
      assume "\<exists>i<length w. c = take i w @ drop (i + 1) w"
      then obtain i where "i < length w" and i: "c = take i w @ drop (i + 1) w" by blast
      then have "i < 3" by (simp add: w_def)
      then have "i = 0 \<or> i = 1 \<or> i = 2" by arith
      with i show False by (auto simp add: sa w_def)
    qed
  qed
  have "getCorrection w (Some sharpSOracle) st = (preserveCase w (Some h), st)"
  proof (rule getCorrection_unique_hit)
    show "w \<noteq> []" by (simp add: w_def)
    show "\<not> sharpSOracle (toLowerCase w)" unfolding low by (simp add: sharpSOracle_def w_def)
    show "h \<in> set (generateCandidates (toLowerCase w))" by (rule cand)
    show "h \<noteq> []" by (simp add: h_def)
    show "sharpSOracle h" by (simp add: sharpSOracle_def h_def)
  qed (rule uniq)
  then show ?thesis by (simp only: pc) (simp only: w_def)
qed

lemma sharpS_second_call:
  "getCorrection ''SSa'' (Some sharpSOracle) st = (codeUnits ''Sa'', st)"
proof -
  have low: "toLowerCase ''SSa'' = ''ssa''" by code_simp
  have rv: "repeatVariants ''ssa'' = [''sa'', ''ssa'']" by code_simp
  have pc: "preserveCase ''SSa'' (Some ''sa'') = codeUnits ''Sa''" by code_simp
  have cand: "''sa'' \<in> set (generateCandidates (toLowerCase ''SSa''))"
    unfolding low by (rule repeat_candidate) (simp add: rv)
  have uniq: "c = ''sa''"
    if c: "c \<in> set (generateCandidates (toLowerCase ''SSa''))" and o: "sharpSOracle c" for c
  proof (rule ccontr)
    assume "c \<noteq> ''sa''"
    with o have ss: "c = [CHR 0xDF, CHR ''a'']" by (simp add: sharpSOracle_def)
    then have "length c < length ''ssa''" by simp
    with c have "c \<in> set (repeatVariants ''ssa'')
        \<or> (\<exists>i<length ''ssa''. c = take i ''ssa'' @ drop (i + 1) ''ssa'')"
      unfolding low by (rule short_candidate_cases)
    then show False
    proof
      assume "c \<in> set (repeatVariants ''ssa'')"
      then show False by (simp add: rv ss)
    next
      assume "\<exists>i<length ''ssa''. c = take i ''ssa'' @ drop (i + 1) ''ssa''"
      then obtain i where "i < length ''ssa''" and i: "c = take i ''ssa'' @ drop (i + 1) ''ssa''"
        by blast
      then have "i < 3" by simp
      then have "i = 0 \<or> i = 1 \<or> i = 2" by arith
      with i show False by (auto simp add: ss)
    qed
  qed
  have "getCorrection ''SSa'' (Some sharpSOracle) st = (preserveCase ''SSa'' (Some ''sa''), st)"
  proof (rule getCorrection_unique_hit)
    show "''SSa'' \<noteq> []" by simp
    show "\<not> sharpSOracle (toLowerCase ''SSa'')" by (simp add: low sharpSOracle_def)
    show "''sa'' \<in> set (generateCandidates (toLowerCase ''SSa''))" by (rule cand)
    show "''sa'' \<noteq> []" by simp
    show "sharpSOracle ''sa''" by (simp add: sharpSOracle_def)
  qed (rule uniq)
  then show ?thesis by (simp only: pc)
qed

lemma toLowerCaseUnit_plain:
  assumes "(of_char c :: nat) < 128"
  shows "plainUnit (toLowerCaseUnit c)"
proof (cases "65 \<le> (of_char c :: nat) \<and> (of_char c :: nat) \<le> 90")
  case True
  then have "toLowerCaseUnit c = char_of ((of_char c :: nat) + 32)"
    by (simp add: toLowerCaseUnit_def)
  moreover have "(of_char (char_of ((of_char c :: nat) + 32)) :: nat) = of_char c + 32"
    using True by simp
  ultimately show ?thesis using True by (simp add: plainUnit_def)
next
  case False
  with assms have "toLowerCaseUnit c = c" by (auto simp add: toLowerCaseUnit_def Let_def)
  with assms False show ?thesis by (simp add: plainUnit_def)
qed

lemma plainUnit_lower: "plainUnit c \<Longrightarrow> toLowerCaseUnit c = c"
  by (auto simp add: plainUnit_def toLowerCaseUnit_def Let_def)

lemma fromCodeUnits_append: "fromCodeUnits (xs @ ys) = fromCodeUnits xs @ fromCodeUnits ys"
  by (simp add: fromCodeUnits_def)

lemma codeUnits_append: "codeUnits (xs @ ys) = codeUnits xs @ codeUnits ys"
  by (simp add: codeUnits_def)

lemma plainUnit_roundtrip:
  assumes "plainUnit c"
  shows "toLowerCase (fromCodeUnits (toUpperCaseUnit c)) = [c]
       \<and> codeUnits (fromCodeUnits (toUpperCaseUnit c)) = toUpperCaseUnit c"
proof (cases "97 \<le> (of_char c :: nat) \<and> (of_char c :: nat) \<le> 122")
  case True
  define n where "n = (of_char c :: nat)"
  from True have n: "97 \<le> n" "n \<le> 122" by (simp_all add: n_def)
  have u: "toUpperCaseUnit c = [n - 32]"
    using True by (simp add: toUpperCaseUnit_def n_def)
  have "n - 32 < 256" using n by arith
  then have o: "(of_char (char_of (n - 32)) :: nat) = n - 32" by simp
  have r: "65 \<le> n - 32 \<and> n - 32 \<le> 90" using n by arith
  have "toLowerCaseUnit (char_of (n - 32)) = char_of (n - 32 + 32)"
    by (simp only: toLowerCaseUnit_def o Let_def r simp_thms if_True)
  also have "n - 32 + 32 = n" using n by arith
  also have "char_of n = c" by (simp add: n_def)
  finally have "toLowerCase (fromCodeUnits (toUpperCaseUnit c)) = [c]"
    by (simp add: u toLowerCase_def fromCodeUnits_def)
  moreover have "codeUnits (fromCodeUnits (toUpperCaseUnit c)) = toUpperCaseUnit c"
    using o by (simp add: u codeUnits_def fromCodeUnits_def)
  ultimately show ?thesis by (rule conjI)
next
  case False
  with assms have "toUpperCaseUnit c = [of_char c]"
    by (auto simp add: plainUnit_def toUpperCaseUnit_def Let_def)
  with assms show ?thesis
    by (simp add: toLowerCase_def plainUnit_lower fromCodeUnits_def codeUnits_def)
qed

lemma alphabet_plain: "c \<in> set alphabet \<Longrightarrow> plainUnit c"
  by (auto simp add: alphabet_def plainUnit_def)

lemma toLowerCase_plain: "isAscii s \<Longrightarrow> \<forall>c\<in>set (toLowerCase s). plainUnit c"
  by (auto simp add: isAscii_def toLowerCase_def toLowerCaseUnit_plain)

lemma toLowerCase_append: "toLowerCase (xs @ ys) = toLowerCase xs @ toLowerCase ys"
  by (simp add: toLowerCase_def)

lemma toLowerCase_fixed: "\<forall>c\<in>set s. plainUnit c \<Longrightarrow> toLowerCase s = s"
  by (induction s) (simp_all add: toLowerCase_def plainUnit_lower)

lemma toLowerCase_toUpperCase:
  assumes "\<forall>c\<in>set s. plainUnit c"
  shows "toLowerCase (fromCodeUnits (toUpperCase s)) = s
       \<and> codeUnits (fromCodeUnits (toUpperCase s)) = toUpperCase s"
  using assms
proof (induction s)
  case Nil
  show ?case by (simp add: toUpperCase_def toLowerCase_def fromCodeUnits_def)
next
  case (Cons c cs)
  then show ?case
    by (simp add: toUpperCase_Cons toLowerCase_append fromCodeUnits_append codeUnits_append
        plainUnit_roundtrip)
qed

lemma toLowerCase_preserveCase:
  assumes "b \<noteq> []" and "\<forall>c\<in>set b. plainUnit c"
  shows "toLowerCase (fromCodeUnits (preserveCase original (Some b))) = b
       \<and> codeUnits (fromCodeUnits (preserveCase original (Some b)))
           = preserveCase original (Some b)"
proof -
  from assms(1) obtain c cs where b: "b = c # cs" by (cases b) auto
  have pc: "plainUnit c" and pcs: "\<forall>x\<in>set cs. plainUnit x" using assms(2) b by simp_all
  have 1: "toLowerCase (fromCodeUnits (toUpperCase b)) = b
      \<and> codeUnits (fromCodeUnits (toUpperCase b)) = toUpperCase b"
    using assms(2) by (rule toLowerCase_toUpperCase)
  have 2: "toLowerCase (fromCodeUnits (toUpperCase [hd b] @ codeUnits (tl b))) = b
      \<and> codeUnits (fromCodeUnits (toUpperCase [hd b] @ codeUnits (tl b)))
          = toUpperCase [hd b] @ codeUnits (tl b)"
    using plainUnit_roundtrip[OF pc] toLowerCase_fixed[OF pcs]
    by (simp add: b toUpperCase_single fromCodeUnits_append toLowerCase_append codeUnits_append)
  have 3: "toLowerCase (fromCodeUnits (codeUnits b)) = b
      \<and> codeUnits (fromCodeUnits (codeUnits b)) = codeUnits b"
    using toLowerCase_fixed[OF assms(2)] by simp
  show ?thesis unfolding preserveCase_Some[OF assms(1)] using 1 2 3 by simp
qed

lemma specVariants_chars: "v \<in> specVariants rs \<Longrightarrow> set v \<subseteq> ch ` set rs"
proof (induction rs arbitrary: v)
  case Nil
  then show ?case by (simp add: specVariants_Nil)
next
  case (Cons r rs)
  from Cons.prems obtain n u where v: "v = replicate n (ch r) @ u" and "u \<in> specVariants rs"
    unfolding specVariants_Cons by blast
  with Cons.IH[of u] show ?case by auto
qed

lemma expandRuns_chars: "\<forall>r\<in>set rs. 1 \<le> len r \<Longrightarrow> ch ` set rs \<subseteq> set (expandRuns rs)"
proof (induction rs)
  case Nil
  show ?case by simp
next
  case (Cons r rs)
  then have "ch r \<in> set (replicate (len r) (ch r))" by (cases "len r") auto
  with Cons show ?case by (auto simp add: expandRuns_Cons)
qed

lemma repeatVariants_chars:
  assumes "v \<in> set (repeatVariants w)"
  shows "set v \<subseteq> set w"
proof -
  have m: "maximalRuns w (collectRuns w 0 [])" by (rule maximalRuns_collectRuns)
  with assms have "v \<in> specVariants (collectRuns w 0 [])" by (simp add: set_repeatVariants)
  then have "set v \<subseteq> ch ` set (collectRuns w 0 [])" by (rule specVariants_chars)
  also have "\<dots> \<subseteq> set (expandRuns (collectRuns w 0 []))"
    using m by (intro expandRuns_chars) (simp add: maximalRuns_def)
  also have "\<dots> = set w" using m by (simp add: maximalRuns_def)
  finally show ?thesis .
qed

lemma candidate_chars:
  assumes "h \<in> set (generateCandidates w)"
  shows "set h \<subseteq> set w \<union> set alphabet"
  using assms unfolding set_generateCandidates
proof (elim UnE CollectE exE conjE)
  assume "h \<in> set (repeatVariants w)"
  then show ?thesis using repeatVariants_chars by blast
next
  fix i assume "h = take i w @ drop (i + 1) w" and "i < length w"
  then show ?thesis using set_take_subset[of i w] set_drop_subset[of "i + 1" w] by auto
next
  fix i c assume "h = take i w @ [c] @ drop i w" and "c \<in> set alphabet"
  then show ?thesis using set_take_subset[of i w] set_drop_subset[of i w] by auto
next
  fix i c assume "h = take i w @ [c] @ drop (i + 1) w" and "c \<in> set alphabet"
  then show ?thesis using set_take_subset[of i w] set_drop_subset[of "i + 1" w] by auto
qed

lemma hit_plain:
  assumes "isAscii rawWord" and "b \<in> set (collectHits oracle (generateCandidates (toLowerCase rawWord)))"
  shows "\<forall>c\<in>set b. plainUnit c"
proof
  fix c assume "c \<in> set b"
  moreover from assms(2) have "set b \<subseteq> set (toLowerCase rawWord) \<union> set alphabet"
    by (intro candidate_chars) (simp add: set_collectHits)
  ultimately have "c \<in> set (toLowerCase rawWord) \<or> c \<in> set alphabet" by blast
  then show "plainUnit c" using toLowerCase_plain[OF assms(1)] alphabet_plain by blast
qed

lemma set_singleEditCandidates:
  "set (generateCandidates w) = set (repeatVariants w) \<union> set (singleEditCandidates w)"
  by (simp add: generateCandidates_def singleEditCandidates_def set_addSubstitutions
      set_addInsertions set_addDeletions set_addRepeats Un_assoc)

lemma singleEdit_edit1:
  assumes "h \<in> set (singleEditCandidates w)"
  shows "edit1 w h"
  using assms
  unfolding singleEditCandidates_def set_addSubstitutions set_addInsertions set_addDeletions
proof (elim UnE CollectE exE conjE)
  assume "h \<in> set []"
  then show ?thesis by simp
next
  fix i assume "h = take i w @ drop (i + 1) w" and "i < length w"
  then show ?thesis using edit1_deletion_at[of i w] by simp
next
  fix i c assume "h = take i w @ [c] @ drop i w"
  then show ?thesis using edit1_insertion_at[of w i c] by simp
next
  fix i c assume "h = take i w @ [c] @ drop (i + 1) w" and "i < length w" and "c \<noteq> w ! i"
  then show ?thesis using edit1_substitution_at[of i w c] by simp
qed

lemma levenshtein_same: "levenshtein a a = 0"
proof -
  have "(edit1 ^^ 0) a a" by simp
  then have "levenshtein a a \<le> 0" by (rule levenshtein_least)
  then show ?thesis by simp
qed

lemma ct_to_cat: "getCorrection ''ct'' (Some (knowsOnly ''cat'')) st = (codeUnits ''cat'', st)"
proof -
  have low: "toLowerCase ''ct'' = ''ct''" by code_simp
  have p: "preserveCase ''ct'' (Some ''cat'') = codeUnits ''cat''" by code_simp
  have n: "''ct'' \<noteq> []" "toLowerCase ''ct'' \<noteq> ''cat''" "''cat'' \<noteq> []"
    by (simp_all add: low)
  have c: "''cat'' \<in> set (generateCandidates (toLowerCase ''ct''))"
    unfolding low by (rule cat_candidate_of_ct)
  show ?thesis using getCorrection_knowsOnly[OF n c, of st] by (simp only: p)
qed

text \<open>The hits of \<open>aaa\<close> under \<open>tieOracle\<close>, in the order the candidates are visited.\<close>

lemma tie_hits:
  "collectHits tieOracle (generateCandidates ''aaa'') = [''a'', ''aa'', ''aaab'']"
  by code_simp

section \<open>The claims\<close>

subsection \<open>Claim C1\<close>

text \<open>
  Claim C1. For a non-empty \<open>rawWord\<close> whose lower-cased form the oracle accepts,
  \<open>getCorrection\<close> returns \<open>rawWord\<close> itself and leaves the module state as it was.
  The candidates play no part: the same holds with any function whatever in place of
  lines 41 to 64.
\<close>

theorem C1_known_word_returned_unchanged:
  assumes "rawWord \<noteq> []" and "oracle (toLowerCase rawWord)"
  shows "getCorrection rawWord (Some oracle) st = (codeUnits rawWord, st)
       \<and> (\<forall>generate. getCorrectionWith generate rawWord (Some oracle) st
             = (codeUnits rawWord, st))"
  using assms by (simp add: getCorrection_def getCorrectionWith_def)

theorem C1_witness:
  "''Cat'' \<noteq> [] \<and> knowsOnly ''cat'' (toLowerCase ''Cat'')
   \<and> getCorrection ''Cat'' (Some (knowsOnly ''cat'')) initialState
       = (codeUnits ''Cat'', initialState)"
proof -
  have h1: "''Cat'' \<noteq> []" by simp
  have h2: "knowsOnly ''cat'' (toLowerCase ''Cat'')" by code_simp
  from C1_known_word_returned_unchanged[of "''Cat''" "knowsOnly ''cat''" initialState] h1 h2
  show ?thesis by blast
qed

subsection \<open>Claim C2\<close>

text \<open>
  Claim C2. When \<open>rawWord\<close> is empty, or the list of hits is empty, or (which implies
  the latter) the oracle rejects every generated candidate, \<open>getCorrection\<close> returns
  \<open>rawWord\<close> itself. The function has no branch that throws: the result is always a
  string.
\<close>

theorem C2_no_forced_correction:
  assumes "rawWord = []
         \<or> collectHits oracle (generateCandidates (toLowerCase rawWord)) = []
         \<or> (\<forall>c\<in>set (generateCandidates (toLowerCase rawWord)). \<not> oracle c)"
  shows "getCorrection rawWord (Some oracle) st = (codeUnits rawWord, st)"
proof -
  have "(\<forall>c\<in>set (generateCandidates (toLowerCase rawWord)). \<not> oracle c)
      \<Longrightarrow> collectHits oracle (generateCandidates (toLowerCase rawWord)) = []"
    by (simp add: collectHits_filter)
  with assms have "rawWord = [] \<or> collectHits oracle (generateCandidates (toLowerCase rawWord)) = []"
    by blast
  then show ?thesis by (auto simp add: getCorrection_Some)
qed

theorem C2_witness:
  "getCorrection ''qzx'' (Some knowsNothing) initialState = (codeUnits ''qzx'', initialState)
   \<and> getCorrection [] (Some (knowsOnly ''cat'')) initialState = (codeUnits [], initialState)"
proof -
  have "\<forall>c\<in>set (generateCandidates (toLowerCase ''qzx'')). \<not> knowsNothing c"
    by (simp add: knowsNothing_def)
  then have "getCorrection ''qzx'' (Some knowsNothing) initialState = (codeUnits ''qzx'', initialState)"
    using C2_no_forced_correction[of "''qzx''" knowsNothing initialState] by blast
  moreover have "getCorrection [] (Some (knowsOnly ''cat'')) initialState = (codeUnits [], initialState)"
    using C2_no_forced_correction[of "[]" "knowsOnly ''cat''" initialState] by blast
  ultimately show ?thesis by blast
qed

subsection \<open>Claim C3\<close>

text \<open>
  Claim C3. \<open>levenshtein a b\<close> is the least number of single-character insertions,
  deletions and substitutions that turn \<open>a\<close> into \<open>b\<close>: that many edits do it, and no
  sequence of edits that does it is shorter. The result is a natural number, a function
  of \<open>a\<close> and \<open>b\<close> alone. The loops never stop early: every cell of the table is
  written, and cell \<open>i\<close>, \<open>j\<close> holds the distance between the first \<open>i\<close> characters of
  \<open>a\<close> and the first \<open>j\<close> characters of \<open>b\<close>.
\<close>

theorem C3_levenshtein_is_edit_distance:
  "(edit1 ^^ levenshtein a b) a b
   \<and> (\<forall>n. (edit1 ^^ n) a b \<longrightarrow> levenshtein a b \<le> n)
   \<and> (\<forall>i j. i \<le> length a \<and> j \<le> length b \<longrightarrow>
         levenshteinTable a b ! i ! j = levenshtein (take i a) (take j b))"
  using levenshtein_reached[of a b] levenshtein_least[of _ a b]
    levenshteinTable_prefixes[of _ a _ b] by blast

theorem C3_witness:
  "(edit1 ^^ 1) ''ct'' ''cat'' \<and> levenshtein ''ct'' ''cat'' = 1
   \<and> levenshteinTable ''ct'' ''cat'' ! 1 ! 2 = levenshtein (take 1 ''ct'') (take 2 ''cat'')"
proof -
  have e: "(edit1 ^^ 1) ''ct'' ''cat''"
    using edit1.insertion[of "''c''" "''t''" "CHR ''a''"] by auto
  have "\<not> (edit1 ^^ 0) ''ct'' ''cat''" by simp
  with e C3_levenshtein_is_edit_distance[of "''ct''" "''cat''"]
  have "levenshtein ''ct'' ''cat'' \<le> 1" and "levenshtein ''ct'' ''cat'' \<noteq> 0"
    by (blast, metis)
  moreover have "(1::nat) \<le> length ''ct'' \<and> (2::nat) \<le> length ''cat''" by simp
  ultimately show ?thesis
    using e C3_levenshtein_is_edit_distance[of "''ct''" "''cat''"]
    by (metis le_Suc_eq le_zero_eq One_nat_def)
qed

subsection \<open>Claim C4\<close>

text \<open>
  Claim C4. Every word has an encoding in maximal runs, and for that encoding the set
  of the strings in \<open>repeatVariants word\<close> is exactly the set of the strings that take,
  run by run, the run's character once or twice where the run is longer than one
  character and once where it is one character. With an oracle that recognises only
  \<open>cool\<close>, \<open>getCorrection\<close> turns \<open>coooool\<close> into \<open>cool\<close>.
\<close>

theorem C4_repeatVariants_exact:
  "(\<exists>runs. maximalRuns word runs)
   \<and> (\<forall>runs. maximalRuns word runs \<longrightarrow> set (repeatVariants word) = specVariants runs)
   \<and> getCorrection ''coooool'' (Some (knowsOnly ''cool'')) st = (codeUnits ''cool'', st)"
proof (intro conjI allI impI)
  show "\<exists>runs. maximalRuns word runs" using maximalRuns_collectRuns[of word] by (rule exI)
next
  fix runs
  assume "maximalRuns word runs"
  then show "set (repeatVariants word) = specVariants runs" by (rule set_repeatVariants)
next
  show "getCorrection ''coooool'' (Some (knowsOnly ''cool'')) st = (codeUnits ''cool'', st)"
    by (rule coooool_to_cool)
qed

theorem C4_witness:
  "maximalRuns ''coooool''
     [\<lparr>ch = CHR ''c'', len = 1\<rparr>, \<lparr>ch = CHR ''o'', len = 5\<rparr>, \<lparr>ch = CHR ''l'', len = 1\<rparr>]
   \<and> set (repeatVariants ''coooool'')
       = specVariants
           [\<lparr>ch = CHR ''c'', len = 1\<rparr>, \<lparr>ch = CHR ''o'', len = 5\<rparr>, \<lparr>ch = CHR ''l'', len = 1\<rparr>]"
proof -
  have m: "maximalRuns ''coooool''
     [\<lparr>ch = CHR ''c'', len = 1\<rparr>, \<lparr>ch = CHR ''o'', len = 5\<rparr>, \<lparr>ch = CHR ''l'', len = 1\<rparr>]"
    by (simp add: maximalRuns_def expandRuns_def eval_nat_numeral)
  have "set (repeatVariants ''coooool'')
       = specVariants
           [\<lparr>ch = CHR ''c'', len = 1\<rparr>, \<lparr>ch = CHR ''o'', len = 5\<rparr>, \<lparr>ch = CHR ''l'', len = 1\<rparr>]"
    using C4_repeatVariants_exact[of "''coooool''" initialState,
        THEN conjunct2, THEN conjunct1, rule_format, OF m] .
  with m show ?thesis by (rule conjI)
qed

subsection \<open>Claim C5\<close>

text \<open>
  Claim C5. When the hits are not empty, the chosen hit is \<open>hits ! k\<close> for an index
  \<open>k\<close> such that no hit is nearer to the lower-cased word and every hit found before
  it is strictly farther; the result is \<open>preserveCase\<close> of that hit. \<open>hits\<close> is in the
  order of the filtering loop. For \<open>aaa\<close> and an oracle that recognises \<open>a\<close>, \<open>aa\<close>
  and \<open>aaab\<close>, the hits are found in this order, at the distances 2, 1 and 1: the
  first hit loses to a nearer one, and of the two nearest the one found first wins.
\<close>

theorem C5_first_minimum_wins:
  assumes "rawWord \<noteq> []" and "\<not> oracle (toLowerCase rawWord)"
    and "hits = collectHits oracle (generateCandidates (toLowerCase rawWord))"
    and "hits \<noteq> []"
  shows "\<exists>k<length hits.
           (\<forall>h\<in>set hits. levenshtein (toLowerCase rawWord) (hits ! k)
                              \<le> levenshtein (toLowerCase rawWord) h)
         \<and> (\<forall>m<k. levenshtein (toLowerCase rawWord) (hits ! k)
                      < levenshtein (toLowerCase rawWord) (hits ! m))
         \<and> getCorrection rawWord (Some oracle) st
               = (preserveCase rawWord (Some (hits ! k)), st)"
proof -
  from pickBest_first_min[OF assms(4), of "toLowerCase rawWord"]
  obtain k where "k < length hits"
    and "pickBest (toLowerCase rawWord) hits
           = (Some (hits ! k), enat (levenshtein (toLowerCase rawWord) (hits ! k)))"
    and "\<forall>h\<in>set hits. levenshtein (toLowerCase rawWord) (hits ! k)
                              \<le> levenshtein (toLowerCase rawWord) h"
    and "\<forall>m<k. levenshtein (toLowerCase rawWord) (hits ! k)
                      < levenshtein (toLowerCase rawWord) (hits ! m)"
    by blast
  moreover from this(2) assms
  have "getCorrection rawWord (Some oracle) st = (preserveCase rawWord (Some (hits ! k)), st)"
    by (simp add: getCorrection_Some)
  ultimately show ?thesis by blast
qed

theorem C5_witness:
  "collectHits tieOracle (generateCandidates (toLowerCase ''aaa'')) = [''a'', ''aa'', ''aaab'']
   \<and> levenshtein (toLowerCase ''aaa'') ''a'' = 2
   \<and> levenshtein (toLowerCase ''aaa'') ''aa'' = 1
   \<and> levenshtein (toLowerCase ''aaa'') ''aaab'' = 1
   \<and> getCorrection ''aaa'' (Some tieOracle) initialState = (codeUnits ''aa'', initialState)"
proof -
  define hits where "hits = collectHits tieOracle (generateCandidates (toLowerCase ''aaa''))"
  have low: "toLowerCase ''aaa'' = ''aaa''" by code_simp
  have hits: "hits = [''a'', ''aa'', ''aaab'']" unfolding hits_def low by (rule tie_hits)
  have d0: "levenshtein (toLowerCase ''aaa'') ''a'' = 2" unfolding low by code_simp
  have d1: "levenshtein (toLowerCase ''aaa'') ''aa'' = 1" unfolding low by code_simp
  have d2: "levenshtein (toLowerCase ''aaa'') ''aaab'' = 1" unfolding low by code_simp
  have h1: "''aaa'' \<noteq> []" by simp
  have h2: "\<not> tieOracle (toLowerCase ''aaa'')" unfolding low by (simp add: tieOracle_def)
  have h4: "hits \<noteq> []" by (simp add: hits)
  from C5_first_minimum_wins[of "''aaa''" tieOracle hits initialState, OF h1 h2 hits_def h4]
  obtain k where k: "k < length hits"
    and least: "\<forall>h\<in>set hits. levenshtein (toLowerCase ''aaa'') (hits ! k)
                                \<le> levenshtein (toLowerCase ''aaa'') h"
    and first: "\<forall>m<k. levenshtein (toLowerCase ''aaa'') (hits ! k)
                        < levenshtein (toLowerCase ''aaa'') (hits ! m)"
    and res: "getCorrection ''aaa'' (Some tieOracle) initialState
                = (preserveCase ''aaa'' (Some (hits ! k)), initialState)"
    by blast
  from k have "k = 0 \<or> k = 1 \<or> k = 2" by (auto simp add: hits)
  then have "k = 1"
  proof (elim disjE)
    assume "k = 0"
    with least have "levenshtein (toLowerCase ''aaa'') ''a'' \<le> levenshtein (toLowerCase ''aaa'') ''aa''"
      by (simp add: hits)
    with d0 d1 show ?thesis by simp
  next
    assume "k = 1"
    then show ?thesis .
  next
    assume k2: "k = 2"
    then have "1 < k" by simp
    with first have "levenshtein (toLowerCase ''aaa'') (hits ! k)
        < levenshtein (toLowerCase ''aaa'') (hits ! 1)"
      by blast
    then have "levenshtein (toLowerCase ''aaa'') ''aaab'' < levenshtein (toLowerCase ''aaa'') ''aa''"
      by (simp add: hits k2)
    with d1 d2 show ?thesis by simp
  qed
  then have "hits ! k = ''aa''" by (simp add: hits)
  moreover have "preserveCase ''aaa'' (Some ''aa'') = codeUnits ''aa''" by code_simp
  ultimately have "getCorrection ''aaa'' (Some tieOracle) initialState
      = (codeUnits ''aa'', initialState)"
    using res by simp
  with hits d0 d1 d2 show ?thesis unfolding hits_def by blast
qed

subsection \<open>Claim C6\<close>




subsection \<open>Claim C7\<close>

text \<open>
  Claim C7, as amended. Every hit is a run-collapse variant of the lower-cased word or a
  candidate of the deletion, insertion and substitution passes; a hit of these three
  passes is at distance exactly 1 from the lower-cased word, and every hit is at
  distance at least 1. When \<open>rawWord\<close> is of ASCII characters, the result differs from
  \<open>rawWord\<close> and some hit comes from the three passes, the lower-cased result is at
  distance exactly 1 from the lower-cased \<open>rawWord\<close>; the result is then a string of
  Latin-1 code units, so that \<open>fromCodeUnits\<close> reads it back without loss.
\<close>

theorem C7_hits_at_distance_one:
  assumes "\<not> oracle (toLowerCase rawWord)"
    and "hits = collectHits oracle (generateCandidates (toLowerCase rawWord))"
  shows "(\<forall>h\<in>set hits.
            (h \<in> set (repeatVariants (toLowerCase rawWord))
               \<or> h \<in> set (singleEditCandidates (toLowerCase rawWord)))
          \<and> (h \<in> set (singleEditCandidates (toLowerCase rawWord))
               \<longrightarrow> levenshtein (toLowerCase rawWord) h = 1)
          \<and> 1 \<le> levenshtein (toLowerCase rawWord) h)
       \<and> (isAscii rawWord
            \<and> (\<exists>h\<in>set hits. h \<in> set (singleEditCandidates (toLowerCase rawWord)))
            \<and> fst (getCorrection rawWord (Some oracle) st) \<noteq> codeUnits rawWord
          \<longrightarrow> levenshtein (toLowerCase rawWord)
                (toLowerCase (fromCodeUnits (fst (getCorrection rawWord (Some oracle) st)))) = 1
              \<and> codeUnits (fromCodeUnits (fst (getCorrection rawWord (Some oracle) st)))
                  = fst (getCorrection rawWord (Some oracle) st))"
proof (intro conjI ballI impI)
  fix h assume h: "h \<in> set hits"
  then show "h \<in> set (repeatVariants (toLowerCase rawWord))
      \<or> h \<in> set (singleEditCandidates (toLowerCase rawWord))"
    unfolding assms(2) set_collectHits set_singleEditCandidates by blast
  from h have "oracle h" by (simp add: assms(2) set_collectHits)
  with assms(1) have "toLowerCase rawWord \<noteq> h" by blast
  then show "1 \<le> levenshtein (toLowerCase rawWord) h" by (rule levenshtein_pos)
next
  fix h assume "h \<in> set (singleEditCandidates (toLowerCase rawWord))"
  then have "edit1 (toLowerCase rawWord) h" by (rule singleEdit_edit1)
  then show "levenshtein (toLowerCase rawWord) h = 1" by (rule levenshtein_edit1)
next
  assume a: "isAscii rawWord
      \<and> (\<exists>h\<in>set hits. h \<in> set (singleEditCandidates (toLowerCase rawWord)))
      \<and> fst (getCorrection rawWord (Some oracle) st) \<noteq> codeUnits rawWord"
  then obtain h1 where h1: "h1 \<in> set hits"
    and s1: "h1 \<in> set (singleEditCandidates (toLowerCase rawWord))" by blast
  have d1: "levenshtein (toLowerCase rawWord) h1 = 1"
    using singleEdit_edit1[OF s1] by (rule levenshtein_edit1)
  from h1 have ne: "hits \<noteq> []" by auto
  from pickBest_first_min[OF ne, of "toLowerCase rawWord"] obtain k where k: "k < length hits"
    and best: "pickBest (toLowerCase rawWord) hits
                 = (Some (hits ! k), enat (levenshtein (toLowerCase rawWord) (hits ! k)))"
    and least: "\<forall>h\<in>set hits. levenshtein (toLowerCase rawWord) (hits ! k)
                                \<le> levenshtein (toLowerCase rawWord) h"
    by blast
  define b where "b = hits ! k"
  from k have b: "b \<in> set hits" by (simp add: b_def)
  then have ob: "oracle b" and nb: "b \<noteq> []" by (simp_all add: assms(2) set_collectHits)
  from ob assms(1) have "toLowerCase rawWord \<noteq> b" by blast
  then have "1 \<le> levenshtein (toLowerCase rawWord) b" by (rule levenshtein_pos)
  moreover from least h1 d1 have "levenshtein (toLowerCase rawWord) b \<le> 1"
    by (auto simp add: b_def)
  ultimately have db: "levenshtein (toLowerCase rawWord) b = 1" by simp
  from a have raw: "rawWord \<noteq> []" by (auto simp add: getCorrection_Some)
  have res: "fst (getCorrection rawWord (Some oracle) st) = preserveCase rawWord (Some b)"
    using raw assms(1) ne best unfolding assms(2) b_def by (simp add: getCorrection_Some)
  have "\<forall>c\<in>set b. plainUnit c"
    using a b unfolding assms(2) by (intro hit_plain) blast+
  with nb have rt: "toLowerCase (fromCodeUnits (preserveCase rawWord (Some b))) = b
      \<and> codeUnits (fromCodeUnits (preserveCase rawWord (Some b))) = preserveCase rawWord (Some b)"
    by (rule toLowerCase_preserveCase)
  from rt db show "levenshtein (toLowerCase rawWord)
      (toLowerCase (fromCodeUnits (fst (getCorrection rawWord (Some oracle) st)))) = 1"
    unfolding res by simp
  from rt show "codeUnits (fromCodeUnits (fst (getCorrection rawWord (Some oracle) st)))
      = fst (getCorrection rawWord (Some oracle) st)"
    unfolding res by (rule conjunct2)
qed

theorem C7_witness:
  "levenshtein (toLowerCase ''ct'')
     (toLowerCase (fromCodeUnits
        (fst (getCorrection ''ct'' (Some (knowsOnly ''cat'')) initialState)))) = 1
   \<and> codeUnits (fromCodeUnits (fst (getCorrection ''ct'' (Some (knowsOnly ''cat'')) initialState)))
       = fst (getCorrection ''ct'' (Some (knowsOnly ''cat'')) initialState)"
proof -
  have low: "toLowerCase ''ct'' = ''ct''" by code_simp
  have h1: "\<not> knowsOnly ''cat'' (toLowerCase ''ct'')" by (simp add: low knowsOnly_def)
  have a: "isAscii ''ct''" by (simp add: isAscii_def)
  have "''cat'' = take 1 ''ct'' @ [CHR ''a''] @ drop 1 ''ct''" by simp
  moreover have "CHR ''a'' \<in> set alphabet" by (simp add: alphabet_def)
  ultimately have "''cat'' \<in> {take i ''ct'' @ [c] @ drop i ''ct'' | i c.
      i \<le> length ''ct'' \<and> c \<in> set alphabet}"
    by (intro CollectI exI[of _ "1::nat"] exI[of _ "CHR ''a''"]) simp
  then have s: "''cat'' \<in> set (singleEditCandidates (toLowerCase ''ct''))"
    unfolding low singleEditCandidates_def set_addSubstitutions set_addInsertions by blast
  then have "''cat'' \<in> set (collectHits (knowsOnly ''cat'') (generateCandidates (toLowerCase ''ct'')))"
    by (simp add: set_collectHits set_singleEditCandidates knowsOnly_def)
  with s have e: "\<exists>h\<in>set (collectHits (knowsOnly ''cat'') (generateCandidates (toLowerCase ''ct''))).
      h \<in> set (singleEditCandidates (toLowerCase ''ct''))" by blast
  have d: "fst (getCorrection ''ct'' (Some (knowsOnly ''cat'')) initialState) \<noteq> codeUnits ''ct''"
    by (simp add: ct_to_cat)
  from C7_hits_at_distance_one[of "knowsOnly ''cat''" "''ct''" _ initialState, OF h1 refl] a e d
  show ?thesis by blast
qed

theorem C7_counterexample:
  "''cool'' \<in> set (collectHits (knowsOnly ''cool'') (generateCandidates (toLowerCase ''coooool'')))
   \<and> levenshtein (toLowerCase ''coooool'') ''cool'' = 3
   \<and> fst (getCorrection ''coooool'' (Some (knowsOnly ''cool'')) initialState) = codeUnits ''cool''
   \<and> levenshtein (toLowerCase ''coooool'') (toLowerCase ''cool'') = 3
   \<and> fst (getCorrection [CHR ''1'', CHR 0xDF, CHR ''a''] (Some sharpSOracle) initialState)
       = codeUnits ''SSa''
   \<and> levenshtein (toLowerCase [CHR ''1'', CHR 0xDF, CHR ''a'']) (toLowerCase ''SSa'') = 2"
proof -
  have low: "toLowerCase ''coooool'' = ''coooool''" by code_simp
  have low': "toLowerCase ''cool'' = ''cool''" by code_simp
  have "''cool'' \<in> set (repeatVariants ''coooool'')" by code_simp
  then have 1: "''cool'' \<in> set (collectHits (knowsOnly ''cool'')
      (generateCandidates (toLowerCase ''coooool'')))"
    unfolding low set_collectHits using repeat_candidate[of "''cool''" "''coooool''"]
    by (simp add: knowsOnly_def)
  have 2: "levenshtein (toLowerCase ''coooool'') ''cool'' = 3" unfolding low by code_simp
  have 3: "fst (getCorrection ''coooool'' (Some (knowsOnly ''cool'')) initialState)
      = codeUnits ''cool''"
    by (simp add: coooool_to_cool)
  have 4: "levenshtein (toLowerCase ''coooool'') (toLowerCase ''cool'') = 3"
    using 2 by (simp only: low')
  have 5: "fst (getCorrection [CHR ''1'', CHR 0xDF, CHR ''a''] (Some sharpSOracle) initialState)
      = codeUnits ''SSa''"
    by (simp add: sharpS_first_call)
  have 6: "levenshtein (toLowerCase [CHR ''1'', CHR 0xDF, CHR ''a'']) (toLowerCase ''SSa'') = 2"
    by code_simp
  from 1 2 3 4 5 6 show ?thesis by blast
qed

subsection \<open>Claim C8\<close>

text \<open>
  Claim C8. For a non-empty \<open>rawWord\<close> the result is a non-empty string. No hit is empty,
  so when there are hits the chosen one is a non-empty string, and \<open>preserveCase\<close> never
  takes its first branch there.
\<close>

theorem C8_result_nonempty:
  assumes "rawWord \<noteq> []"
  shows "fst (getCorrection rawWord (Some oracle) st) \<noteq> []
       \<and> [] \<notin> set (collectHits oracle (generateCandidates (toLowerCase rawWord)))
       \<and> (collectHits oracle (generateCandidates (toLowerCase rawWord)) \<noteq> [] \<longrightarrow>
            (\<exists>b. b \<noteq> [] \<and> fst (pickBest (toLowerCase rawWord)
                 (collectHits oracle (generateCandidates (toLowerCase rawWord)))) = Some b))"
proof -
  have "fst (getCorrection rawWord (Some oracle) st) \<noteq> []"
    using assms by (simp add: getCorrection_Some preserveCase_nonempty)
  moreover have e: "[] \<notin> set (collectHits oracle (generateCandidates (toLowerCase rawWord)))"
    by (simp add: set_collectHits)
  moreover have "collectHits oracle (generateCandidates (toLowerCase rawWord)) \<noteq> [] \<longrightarrow>
            (\<exists>b. b \<noteq> [] \<and> fst (pickBest (toLowerCase rawWord)
                 (collectHits oracle (generateCandidates (toLowerCase rawWord)))) = Some b)"
    using pickBest_in_hits[of "collectHits oracle (generateCandidates (toLowerCase rawWord))"
        "toLowerCase rawWord"] e by metis
  ultimately show ?thesis by blast
qed

theorem C8_witness:
  "fst (getCorrection ''ct'' (Some (knowsOnly ''cat'')) initialState) \<noteq> []
   \<and> (\<exists>b. b \<noteq> [] \<and> fst (pickBest (toLowerCase ''ct'')
         (collectHits (knowsOnly ''cat'') (generateCandidates (toLowerCase ''ct'')))) = Some b)"
proof -
  have low: "toLowerCase ''ct'' = ''ct''" by code_simp
  have h1: "''ct'' \<noteq> []" by simp
  have "''cat'' \<in> set (collectHits (knowsOnly ''cat'') (generateCandidates (toLowerCase ''ct'')))"
    using cat_candidate_of_ct by (simp add: set_collectHits low knowsOnly_def)
  then have h4: "collectHits (knowsOnly ''cat'') (generateCandidates (toLowerCase ''ct'')) \<noteq> []"
    by auto
  from C8_result_nonempty[OF h1, of "knowsOnly ''cat''" initialState] h4
  show ?thesis by blast
qed

subsection \<open>Claim C9\<close>

text \<open>
  Claim C9, as amended. For a \<open>rawWord\<close> of ASCII characters, running \<open>getCorrection\<close>
  on its own result gives that result again, whatever the module state of the second
  run. The first result is a string of Latin-1 code units, which \<open>fromCodeUnits\<close> reads
  back without loss for the second run.
\<close>

theorem C9_idempotent_on_ascii:
  assumes "isAscii rawWord"
  shows "getCorrection (fromCodeUnits (fst (getCorrection rawWord (Some oracle) st)))
             (Some oracle) st'
           = (fst (getCorrection rawWord (Some oracle) st), st')
       \<and> codeUnits (fromCodeUnits (fst (getCorrection rawWord (Some oracle) st)))
           = fst (getCorrection rawWord (Some oracle) st)"
proof -
  define lower where "lower = toLowerCase rawWord"
  define hits where "hits = collectHits oracle (generateCandidates lower)"
  consider "rawWord = []" | "rawWord \<noteq> []" "oracle lower"
    | "rawWord \<noteq> []" "\<not> oracle lower" "hits = []"
    | "rawWord \<noteq> []" "\<not> oracle lower" "hits \<noteq> []"
    by blast
  then show ?thesis
  proof cases
    case 1
    then show ?thesis by (simp add: getCorrection_Some)
  next
    case 2
    then show ?thesis by (simp add: getCorrection_Some lower_def)
  next
    case 3
    then show ?thesis by (simp add: getCorrection_Some lower_def hits_def)
  next
    case 4
    from pickBest_in_hits[OF 4(3), of lower] obtain b where b: "b \<in> set hits"
      and best: "fst (pickBest lower hits) = Some b" by blast
    from b have ne: "b \<noteq> []" and ob: "oracle b" by (simp_all add: hits_def set_collectHits)
    have plain: "\<forall>c\<in>set b. plainUnit c"
      using assms b unfolding hits_def lower_def by (rule hit_plain)
    define r where "r = preserveCase rawWord (Some b)"
    have res: "fst (getCorrection rawWord (Some oracle) st) = r"
      using 4 best unfolding hits_def lower_def r_def by (simp add: getCorrection_Some)
    have rt: "toLowerCase (fromCodeUnits r) = b \<and> codeUnits (fromCodeUnits r) = r"
      unfolding r_def using ne plain by (rule toLowerCase_preserveCase)
    have "r \<noteq> []" unfolding r_def using 4(1) by (rule preserveCase_nonempty)
    with rt have "fromCodeUnits r \<noteq> []" by auto
    with rt ob have "getCorrection (fromCodeUnits r) (Some oracle) st' = (r, st')"
      by (simp add: getCorrection_Some)
    with rt show ?thesis unfolding res by blast
  qed
qed

theorem C9_witness:
  "isAscii ''Helllo''
   \<and> getCorrection
        (fromCodeUnits (fst (getCorrection ''Helllo'' (Some (knowsOnly ''hello'')) initialState)))
        (Some (knowsOnly ''hello'')) initialState
      = (fst (getCorrection ''Helllo'' (Some (knowsOnly ''hello'')) initialState), initialState)"
proof -
  have a: "isAscii ''Helllo''" by (simp add: isAscii_def)
  from a C9_idempotent_on_ascii[OF a, of "knowsOnly ''hello''" initialState initialState]
  show ?thesis by blast
qed

text \<open>
  Without the restriction the claim fails: the first run on \<open>1 U+00DF a\<close> gives \<open>SSa\<close>,
  and the run on \<open>SSa\<close> gives \<open>Sa\<close>.
\<close>

theorem C9_counterexample:
  "fst (getCorrection [CHR ''1'', CHR 0xDF, CHR ''a''] (Some sharpSOracle) initialState)
     = codeUnits ''SSa''
   \<and> fst (getCorrection ''SSa'' (Some sharpSOracle) initialState) = codeUnits ''Sa''
   \<and> fst (getCorrection
           (fromCodeUnits
              (fst (getCorrection [CHR ''1'', CHR 0xDF, CHR ''a''] (Some sharpSOracle) initialState)))
           (Some sharpSOracle) initialState)
     \<noteq> fst (getCorrection [CHR ''1'', CHR 0xDF, CHR ''a''] (Some sharpSOracle) initialState)"
  by (simp add: sharpS_first_call sharpS_second_call)

subsection \<open>Claim C10\<close>

text \<open>
  Claim C10. With a predicate \<open>hasWord\<close> supplied, the result is the same from any two
  module states, and each run leaves its state as it was: no load is started and the
  cache is not written.
\<close>

theorem C10_result_independent_of_cache:
  "fst (getCorrection rawWord (Some hasWord) st1) = fst (getCorrection rawWord (Some hasWord) st2)
   \<and> snd (getCorrection rawWord (Some hasWord) st1) = st1
   \<and> snd (getCorrection rawWord (Some hasWord) st2) = st2"
  by (simp add: getCorrection_Some)

end
